theory Spec2Isabelle
  imports Complex_Main "HOL-Library.AList"
begin

section \<open>Data model of \<open>sampler_class.py\<close>\<close>

text \<open>
  The class \<open>LatentDirichletAllocation\<close> of \<open>src/sampler_class.py\<close> is embedded method by
  method. Python dictionaries that the code iterates over (the corpus \<open>iden_to_tokens\<close>,
  the chain dictionary \<open>document_word_topics_MC\<close>) are association lists in insertion
  order; dictionaries that are only indexed are partial maps. A \<open>collections.Counter\<close>
  over topic labels is a total function into the integers: a missing key reads 0, and
  \<open>c[k] -= 1\<close> is plain item assignment, so a count may become negative. Python floats
  are idealised as exact rationals, except in the sections on double precision, which
  repeat the sampler with IEEE arithmetic for the one property that rounding decides.
  Every exception the code can raise is a value of \<open>error\<close>. The progress output
  (\<open>trange\<close>, \<open>print\<close>) touches no state and is left out.
\<close>

type_synonym token = string
type_synonym doc_id = string
type_synonym corpus = "(doc_id \<times> token list) list"
type_synonym counter = "int \<Rightarrow> int"
type_synonym matrix = "rat list list"
type_synonym chains = "int list list"

datatype error =
    ValueError
  | IndexError
  | KeyError
  | ZeroDivisionError
  | OverflowError
  | MemoryError
  | NameError string
  | InitializationError

text \<open>A \<open>for\<close> loop whose body may raise: the first error ends the loop.\<close>

fun for_each :: "('x \<Rightarrow> 's \<Rightarrow> error + 's) \<Rightarrow> 'x list \<Rightarrow> 's \<Rightarrow> error + 's" where
  "for_each body [] s = Inr s"
| "for_each body (x # xs) s =
     (case body x s of Inl e \<Rightarrow> Inl e | Inr s' \<Rightarrow> for_each body xs s')"

text \<open>A loop that appends one value per element to a fresh list.\<close>

fun map_err :: "('x \<Rightarrow> error + 'y) \<Rightarrow> 'x list \<Rightarrow> error + 'y list" where
  "map_err f [] = Inr []"
| "map_err f (x # xs) =
     (case f x of
        Inl e \<Rightarrow> Inl e
      | Inr y \<Rightarrow> (case map_err f xs of Inl e \<Rightarrow> Inl e | Inr ys \<Rightarrow> Inr (y # ys)))"

section \<open>The model object and its constructor\<close>

text \<open>
  The instance fields of \<open>LatentDirichletAllocation\<close>. The fields \<open>K\<close>, \<open>alpha\<close>, \<open>beta\<close>
  and \<open>W\<close> carry the prefix \<open>self_\<close>, so that the run-time arguments of \<open>fit\<close> can keep
  their names.
\<close>

record lda =
  iden_to_tokens :: corpus
  self_K :: int
  self_alpha :: rat
  self_beta :: rat
  vocabulary :: "token list"
  self_W :: nat
  theta_matrix :: matrix
  phi_matrix :: matrix

text \<open>
  Modelled from the spec: \<open>get_unique_words\<close> of \<open>src/utility.py\<close>, which is not among the
  sources. The spec (4.1) has it derive the unique tokens of the corpus with a stable
  enumeration, deterministic and free of side effects, failing only on a corpus with no
  tokens at all, where it signals an initialization error.
\<close>

definition get_unique_words :: "token list list \<Rightarrow> error + token list" where
  "get_unique_words docs =
     (if concat docs = [] then Inl InitializationError else Inr (remdups (concat docs)))"

text \<open>
  \<open>np.zeros((rows, cols))\<close>: a negative dimension raises \<open>ValueError\<close>. Whether an array
  of a given shape can be had is decided by the platform, not by the program: NumPy
  raises \<open>ValueError\<close> for a dimension or a size beyond its index type, and \<open>MemoryError\<close>
  when memory is short. The platform is a parameter: \<open>alloc shape\<close> is the error, if any,
  with which it refuses an array of that shape.
\<close>

type_synonym allocator = "nat list \<Rightarrow> error option"

definition np_zeros :: "allocator \<Rightarrow> int \<Rightarrow> nat \<Rightarrow> error + matrix" where
  "np_zeros alloc rows cols =
     (if rows < 0 then Inl ValueError
      else (case alloc [nat rows, cols] of
              Some e \<Rightarrow> Inl e
            | None \<Rightarrow> Inr (replicate (nat rows) (replicate cols 0))))"

text \<open>\<open>__init__\<close>: no argument is checked; the only failures are those of the two callees.\<close>

definition init :: "allocator \<Rightarrow> corpus \<Rightarrow> int \<Rightarrow> rat \<Rightarrow> rat \<Rightarrow> error + lda" where
  "init alloc corp K alpha beta =
     (case get_unique_words (map snd corp) of
        Inl e \<Rightarrow> Inl e
      | Inr vocab \<Rightarrow>
          (case np_zeros alloc K (length corp) of
             Inl e \<Rightarrow> Inl e
           | Inr theta \<Rightarrow>
               (case np_zeros alloc K (length vocab) of
                  Inl e \<Rightarrow> Inl e
                | Inr phi \<Rightarrow>
                    Inr \<lparr>iden_to_tokens = corp, self_K = K, self_alpha = alpha,
                         self_beta = beta, vocabulary = vocab, self_W = length vocab,
                         theta_matrix = theta, phi_matrix = phi\<rparr>)))"

section \<open>Random sources\<close>

text \<open>
  A generator is the stream of its future outputs. \<open>np.random.randint\<close> reads NumPy's
  global generator, whose raw outputs are reduced into the requested range;
  \<open>random.choices\<close> reads Python's, whose outputs are the values of \<open>random()\<close> (each in
  the unit interval, which nothing below relies on).
\<close>

type_synonym 'a gen = "nat \<Rightarrow> 'a"

definition gen_take :: "nat \<Rightarrow> 'a gen \<Rightarrow> 'a list" where
  "gen_take n g = map g [0..<n]"

definition gen_drop :: "nat \<Rightarrow> 'a gen \<Rightarrow> 'a gen" where
  "gen_drop n g = (\<lambda>i. g (i + n))"

text \<open>
  \<open>np.random.randint(low, high, size)\<close>: an empty request returns the empty array before
  the bounds are looked at; otherwise \<open>low >= high\<close> raises \<open>ValueError\<close>.
\<close>

definition randint :: "int \<Rightarrow> int \<Rightarrow> nat \<Rightarrow> nat gen \<Rightarrow> error + (int list \<times> nat gen)" where
  "randint low high sz g =
     (if sz = 0 then Inr ([], g)
      else if low \<ge> high then Inl ValueError
      else Inr (map (\<lambda>r. low + int (r mod nat (high - low))) (gen_take sz g),
                gen_drop sz g))"

text \<open>\<open>itertools.accumulate\<close>: the running sums of a list.\<close>

fun running :: "rat \<Rightarrow> rat list \<Rightarrow> rat list" where
  "running x [] = [x]"
| "running x (y # ys) = x # running (x + y) ys"

definition accumulate :: "rat list \<Rightarrow> rat list" where
  "accumulate ws = (case ws of [] \<Rightarrow> [] | x # xs \<Rightarrow> running x xs)"

text \<open>\<open>bisect.bisect_right(a, x, lo, hi)\<close>.\<close>

function bisect :: "rat list \<Rightarrow> rat \<Rightarrow> nat \<Rightarrow> nat \<Rightarrow> nat" where
  "bisect a x lo hi =
     (if lo < hi
      then (let mid = (lo + hi) div 2
            in if x < a ! mid then bisect a x lo mid else bisect a x (mid + 1) hi)
      else lo)"
  by pat_completeness auto
termination
  by (relation "measure (\<lambda>(a, x, lo, hi). hi - lo)") auto

declare bisect.simps [simp del]

text \<open>
  \<open>random.choices(population, weights=weights)[0]\<close> as in CPython 3.9 and later, given
  the value \<open>u\<close> of \<open>random()\<close>: the weights are accumulated, their number must match the
  population, the subscript \<open>cum_weights[-1]\<close> raises \<open>IndexError\<close> on an empty list, a
  total that is not positive raises \<open>ValueError\<close>, and the draw is the element at
  \<open>bisect(cum_weights, u * total, 0, n - 1)\<close>.
\<close>

definition choices :: "'a list \<Rightarrow> rat list \<Rightarrow> rat \<Rightarrow> error + 'a" where
  "choices population weights u =
     (let n = length population; cum_weights = accumulate weights
      in if length cum_weights \<noteq> n then Inl ValueError
         else if cum_weights = [] then Inl IndexError
         else (let total = last cum_weights
               in if total \<le> 0 then Inl ValueError
                  else Inr (population ! bisect cum_weights (u * total) 0 (n - 1))))"

section \<open>The state initializer\<close>

text \<open>The four dictionaries that \<open>_initialize_topics\<close> returns and \<open>fit\<close> mutates.\<close>

record sampler_state =
  document_word_topics_MC :: "(doc_id \<times> chains) list"
  document_topic_counts :: "doc_id \<rightharpoonup> counter"
  word_topic_counts :: "token \<rightharpoonup> counter"
  total_topic_counts :: counter

text \<open>\<open>Counter.update(iterable)\<close> adds one per element.\<close>

definition counter_update :: "counter \<Rightarrow> int list \<Rightarrow> counter" where
  "counter_update c ts = fold (\<lambda>t c'. c'(t := c' t + 1)) ts c"

text \<open>
  The loop over \<open>set(words)\<close> of one document: each unique word's counter receives the
  topics drawn at that word's positions. A Python set is iterated in no particular
  order; the iterations touch different keys, and \<open>remdups words\<close> fixes one order.
  The subscript \<open>words[idx]\<close> is in range, since \<open>topics\<close> has the length of \<open>words\<close>.
\<close>

definition update_word :: "token list \<Rightarrow> int list \<Rightarrow> token \<Rightarrow> sampler_state \<Rightarrow> error + sampler_state"
  where
  "update_word words topics unique_word s =
     (let unique_word_topics =
            map snd (filter (\<lambda>(idx, topic). words ! idx = unique_word) (enumerate 0 topics))
      in case word_topic_counts s unique_word of
           None \<Rightarrow> Inl KeyError
         | Some c \<Rightarrow>
             Inr (s\<lparr>word_topic_counts :=
                      (word_topic_counts s)(unique_word \<mapsto> counter_update c unique_word_topics)\<rparr>))"

text \<open>The body of the loop over the documents.\<close>

definition init_doc ::
  "lda \<Rightarrow> doc_id \<times> token list \<Rightarrow> sampler_state \<times> nat gen \<Rightarrow> error + (sampler_state \<times> nat gen)"
  where
  "init_doc m = (\<lambda>(doc, words) (s, g).
     case randint 1 (self_K m + 1) (length words) g of
       Inl e \<Rightarrow> Inl e
     | Inr (topics, g') \<Rightarrow>
         (let s1 = s\<lparr>document_word_topics_MC :=
                        AList.update doc (map (\<lambda>topic. [topic]) topics)
                          (document_word_topics_MC s)\<rparr>
          in case document_topic_counts s1 doc of
               None \<Rightarrow> Inl KeyError
             | Some c \<Rightarrow>
                 (let s2 = s1\<lparr>document_topic_counts :=
                                 (document_topic_counts s1)(doc \<mapsto> counter_update c topics)\<rparr>;
                      s3 = s2\<lparr>total_topic_counts :=
                                 counter_update (total_topic_counts s2) topics\<rparr>
                  in case for_each (update_word words topics) (remdups words) s3 of
                       Inl e \<Rightarrow> Inl e
                     | Inr s4 \<Rightarrow> Inr (s4, g'))))"

definition empty_state :: "lda \<Rightarrow> sampler_state" where
  "empty_state m =
     \<lparr>document_word_topics_MC = [],
      document_topic_counts = map_of (map (\<lambda>title. (title, \<lambda>_. 0)) (map fst (iden_to_tokens m))),
      word_topic_counts = map_of (map (\<lambda>word. (word, \<lambda>_. 0)) (vocabulary m)),
      total_topic_counts = (\<lambda>_. 0)\<rparr>"

definition initialize_topics :: "lda \<Rightarrow> nat gen \<Rightarrow> error + (sampler_state \<times> nat gen)" where
  "initialize_topics m g = for_each (init_doc m) (iden_to_tokens m) (empty_state m, g)"

section \<open>The Gibbs sampler\<close>

text \<open>\<open>np.zeros(n)\<close>.\<close>

definition np_zeros1 :: "int \<Rightarrow> error + rat list" where
  "np_zeros1 n = (if n < 0 then Inl ValueError else Inr (replicate (nat n) 0))"

text \<open>
  The body of the loop over the candidate topics \<open>k\<close> (lines 41 to 57): the three counts
  are read, each is decremented when \<open>k\<close> is the current topic, and the density is
  stored at index \<open>k - 1\<close>. A zero denominator raises \<open>ZeroDivisionError\<close>.
\<close>

definition set_density ::
  "lda \<Rightarrow> rat \<Rightarrow> rat \<Rightarrow> sampler_state \<Rightarrow> doc_id \<Rightarrow> token \<Rightarrow> int \<Rightarrow> int \<Rightarrow> rat list
     \<Rightarrow> error + rat list" where
  "set_density m alpha beta s doc word curr_topic k densities =
     (case document_topic_counts s doc of
        None \<Rightarrow> Inl KeyError
      | Some cd \<Rightarrow>
          (case word_topic_counts s word of
             None \<Rightarrow> Inl KeyError
           | Some cw \<Rightarrow>
               (let N_kj = cd k;
                    N_wk = cw k;
                    N_k = total_topic_counts s k;
                    N_kj = (if curr_topic = k then N_kj - 1 else N_kj);
                    N_wk = (if curr_topic = k then N_wk - 1 else N_wk);
                    N_k = (if curr_topic = k then N_k - 1 else N_k);
                    a_kj = of_int N_kj + alpha;
                    denom = of_int N_k + of_nat (self_W m) * beta
                in if denom = 0 then Inl ZeroDivisionError
                   else Inr (densities[nat (k - 1) := a_kj * ((of_int N_wk + beta) / denom)]))))"

definition counter_add :: "counter \<Rightarrow> int \<Rightarrow> int \<Rightarrow> counter" where
  "counter_add c k d = c(k := c k + d)"

text \<open>
  One pass of the innermost loop body of \<open>fit\<close> (lines 37 to 75) for the occurrence
  \<open>(doc, i)\<close> of \<open>word\<close>.
\<close>

definition resample_token ::
  "lda \<Rightarrow> rat \<Rightarrow> rat \<Rightarrow> doc_id \<Rightarrow> nat \<times> token \<Rightarrow> sampler_state \<times> rat gen
     \<Rightarrow> error + (sampler_state \<times> rat gen)" where
  "resample_token m alpha beta doc = (\<lambda>(i, word) (s, g).
     case np_zeros1 (self_K m) of
       Inl e \<Rightarrow> Inl e
     | Inr zeros \<Rightarrow>
         (case map_of (document_word_topics_MC s) doc of
            None \<Rightarrow> Inl KeyError
          | Some chs \<Rightarrow>
              if \<not> i < length chs then Inl IndexError
              else if chs ! i = [] then Inl IndexError
              else
                (let curr_topic = last (chs ! i)
                 in case for_each (set_density m alpha beta s doc word curr_topic)
                           [1..self_K m] zeros of
                      Inl e \<Rightarrow> Inl e
                    | Inr densities \<Rightarrow>
                        (case choices [1..self_K m] densities (g 0) of
                           Inl e \<Rightarrow> Inl e
                         | Inr new_topic \<Rightarrow>
                             (let s1 = s\<lparr>document_word_topics_MC :=
                                            AList.update doc (chs[i := chs ! i @ [new_topic]])
                                              (document_word_topics_MC s)\<rparr>;
                                  g' = gen_drop 1 g
                              in if new_topic = curr_topic then Inr (s1, g')
                                 else
                                   (case document_topic_counts s1 doc of
                                      None \<Rightarrow> Inl KeyError
                                    | Some cd \<Rightarrow>
                                        (case word_topic_counts s1 word of
                                           None \<Rightarrow> Inl KeyError
                                         | Some cw \<Rightarrow>
                                             Inr (s1\<lparr>document_topic_counts :=
                                                       (document_topic_counts s1)(doc \<mapsto>
                                                          counter_add (counter_add cd curr_topic (- 1))
                                                            new_topic 1),
                                                     word_topic_counts :=
                                                       (word_topic_counts s1)(word \<mapsto>
                                                          counter_add (counter_add cw curr_topic (- 1))
                                                            new_topic 1),
                                                     total_topic_counts :=
                                                       counter_add
                                                         (counter_add (total_topic_counts s1)
                                                            curr_topic (- 1))
                                                         new_topic 1\<rparr>,
                                                  g'))))))))"

text \<open>The three nested loops of \<open>fit\<close> (lines 33 to 75).\<close>

definition sweep_document ::
  "lda \<Rightarrow> rat \<Rightarrow> rat \<Rightarrow> doc_id \<times> token list \<Rightarrow> sampler_state \<times> rat gen
     \<Rightarrow> error + (sampler_state \<times> rat gen)" where
  "sweep_document m alpha beta = (\<lambda>(doc, words).
     for_each (resample_token m alpha beta doc) (enumerate 0 words))"

definition sweep ::
  "lda \<Rightarrow> rat \<Rightarrow> rat \<Rightarrow> sampler_state \<times> rat gen \<Rightarrow> error + (sampler_state \<times> rat gen)" where
  "sweep m alpha beta = for_each (sweep_document m alpha beta) (iden_to_tokens m)"

definition gibbs ::
  "lda \<Rightarrow> rat \<Rightarrow> rat \<Rightarrow> int \<Rightarrow> sampler_state \<times> rat gen \<Rightarrow> error + (sampler_state \<times> rat gen)"
  where
  "gibbs m alpha beta niter = for_each (\<lambda>j. sweep m alpha beta) [0..<nat niter]"

section \<open>The topic aggregator\<close>

text \<open>
  \<open>scipy.stats.mode(a, axis=None)[0][0]\<close> in the SciPy releases the code was written for:
  the unique values are visited in ascending order and a value replaces the running
  mode only when its count is strictly larger; the running mode and count start at 0.
  On an empty array the result arrays are empty, so the subscript \<open>[0][0]\<close> raises
  \<open>IndexError\<close>.
\<close>

definition mode_step :: "int list \<Rightarrow> int \<Rightarrow> int \<times> nat \<Rightarrow> int \<times> nat" where
  "mode_step a score acc =
     (let counts = count_list a score
      in if counts > snd acc then (score, counts) else acc)"

definition mode :: "int list \<Rightarrow> error + int" where
  "mode a =
     (if a = [] then Inl IndexError
      else Inr (fst (fold (mode_step a) (sort (remdups a)) (0, 0))))"

text \<open>
  \<open>_compute_MC_topic_approx\<close>: for every document of the chain dictionary, in order, and
  every position, the mode of \<open>document_word_topics_MC[doc][i]\<close> is appended to that
  document's list of labels. The parameter is called \<open>topics_MC\<close> here, the source's name
  being the state's field.
\<close>

definition compute_MC_topic_approx ::
  "(doc_id \<times> chains) list \<Rightarrow> error + (doc_id \<times> int list) list" where
  "compute_MC_topic_approx topics_MC =
     map_err
       (\<lambda>(doc, words).
          case map_err
                 (\<lambda>(i, word).
                    case map_of topics_MC doc of
                      None \<Rightarrow> Inl KeyError
                    | Some chs \<Rightarrow> if i < length chs then mode (chs ! i) else Inl IndexError)
                 (enumerate 0 words) of
            Inl e \<Rightarrow> Inl e
          | Inr labels \<Rightarrow> Inr (doc, labels))
       topics_MC"

section \<open>The run\<close>

text \<open>
  \<open>fit\<close>. It assigns to no field of the instance, so the instance it leaves behind is
  the one it was called on; the second component of the result records that. Line 81
  calls \<open>_compute_phi_estimates\<close> by its bare name. Inside a method body a bare name is
  looked up among the locals of \<open>fit\<close>, the module's globals and the builtins, never among
  the methods of the class; the module binds \<open>Counter\<close>, \<open>choices\<close>, \<open>get_unique_words\<close>,
  \<open>np\<close>, \<open>trange\<close>, \<open>mode\<close> and \<open>LatentDirichletAllocation\<close> only. The callee is
  evaluated before its arguments, so line 81 raises \<open>NameError\<close>, and lines 82 to 84
  (the call of \<open>compute_theta_estimates\<close> and the \<open>return\<close>) are never reached.
\<close>

type_synonym fit_result = "(doc_id \<times> int list) list \<times> matrix \<times> matrix"

definition fit ::
  "lda \<Rightarrow> rat \<Rightarrow> rat \<Rightarrow> int \<Rightarrow> nat gen \<Rightarrow> rat gen \<Rightarrow> (error + fit_result) \<times> lda" where
  "fit m alpha beta niter np_gen py_gen =
     ((case initialize_topics m np_gen of
         Inl e \<Rightarrow> Inl e
       | Inr (s0, np_gen') \<Rightarrow>
           (case gibbs m alpha beta niter (s0, py_gen) of
              Inl e \<Rightarrow> Inl e
            | Inr (s, py_gen') \<Rightarrow>
                (case compute_MC_topic_approx (document_word_topics_MC s) of
                   Inl e \<Rightarrow> Inl e
                 | Inr document_word_topics \<Rightarrow> Inl (NameError ''_compute_phi_estimates'')))),
      m)"

section \<open>The parameter estimator\<close>



section \<open>The top-words reporter\<close>

text \<open>The slice \<open>xs[:n]\<close>: a negative \<open>n\<close> counts from the end.\<close>

definition py_take :: "int \<Rightarrow> 'a list \<Rightarrow> 'a list" where
  "py_take n xs = (if 0 \<le> n then take (nat n) xs else take (length xs - nat (- n)) xs)"

text \<open>\<open>np.around(x, 4)\<close>: scale by \<open>10^4\<close>, round half to even, scale back.\<close>

definition rint :: "rat \<Rightarrow> int" where
  "rint y =
     (let f = \<lfloor>y\<rfloor>; d = y - of_int f
      in if d < 1 / 2 then f else if 1 / 2 < d then f + 1 else if even f then f else f + 1)"

definition around4 :: "rat \<Rightarrow> rat" where
  "around4 x = of_int (rint (x * 10000)) / 10000"

datatype top_words = Words "token list" | WordProbs "(token \<times> rat) list"

text \<open>
  \<open>get_top_n_words\<close>. NumPy leaves the order that \<open>np.argsort\<close> gives to equal entries
  to its sorting routine, so \<open>argsort\<close> is a parameter; \<open>argsort_spec\<close> is what NumPy
  promises of it: a permutation of the indices that sorts the entries.
\<close>

definition argsort_spec :: "(rat list \<Rightarrow> nat list) \<Rightarrow> bool" where
  "argsort_spec argsort \<longleftrightarrow>
     (\<forall>xs. set (argsort xs) = {0..<length xs} \<and> distinct (argsort xs)
         \<and> sorted (map (\<lambda>i. xs ! i) (argsort xs)))"

definition stable_argsort :: "rat list \<Rightarrow> nat list" where
  "stable_argsort xs = sort_key (\<lambda>i. xs ! i) [0..<length xs]"

definition get_top_n_words ::
  "(rat list \<Rightarrow> nat list) \<Rightarrow> lda \<Rightarrow> int \<Rightarrow> bool \<Rightarrow> error + (int \<times> top_words) list" where
  "get_top_n_words argsort m n return_probs =
     map_err
       (\<lambda>k. let row = phi_matrix m ! k;
                top_n_idx = py_take n (rev (argsort row))
            in case map_err
                      (\<lambda>i. if i < length (vocabulary m) then Inr (vocabulary m ! i)
                           else Inl IndexError)
                      top_n_idx of
                 Inl e \<Rightarrow> Inl e
               | Inr top_n_words \<Rightarrow>
                   if return_probs
                   then (case map_err
                                (\<lambda>i. if i < length row then Inr (around4 (row ! i))
                                     else Inl IndexError)
                                top_n_idx of
                           Inl e \<Rightarrow> Inl e
                         | Inr top_n_probs \<Rightarrow>
                             Inr (int k + 1, WordProbs (zip top_n_words top_n_probs)))
                   else Inr (int k + 1, Words top_n_words))
       [0..<length (phi_matrix m)]"

section \<open>The sampler in double precision\<close>

























section \<open>Auxiliary definitions\<close>

text \<open>
  The density that line 57 stores for topic \<open>k\<close>, as a function of the three counters and
  the current topic \<open>c\<close>.
\<close>

definition density_of ::
  "lda \<Rightarrow> rat \<Rightarrow> rat \<Rightarrow> counter \<Rightarrow> counter \<Rightarrow> counter \<Rightarrow> int \<Rightarrow> int \<Rightarrow> rat" where
  "density_of m alpha beta cd cw ct c k =
     (of_int (cd k - (if k = c then 1 else 0)) + alpha)
       * ((of_int (cw k - (if k = c then 1 else 0)) + beta)
            / (of_int (ct k - (if k = c then 1 else 0)) + of_nat (self_W m) * beta))"

text \<open>
  The scenario of the specification (section 8): two documents, two topics. The state
  is the one \<open>_initialize_topics\<close> builds when NumPy's generator yields 0, 1, 2, ...
  The instance carries hyperparameters 5 and 7, to tell them from those given to \<open>fit\<close>.
\<close>

definition scenario_corpus :: corpus where
  "scenario_corpus = [(''d1'', [''a'', ''b'', ''a'']), (''d2'', [''b'', ''b''])]"

definition scenario_model :: lda where
  "scenario_model =
     \<lparr>iden_to_tokens = scenario_corpus, self_K = 2, self_alpha = 5, self_beta = 7,
      vocabulary = [''a'', ''b''], self_W = 2,
      theta_matrix = [[0, 0], [0, 0]], phi_matrix = [[0, 0], [0, 0]]\<rparr>"

definition scenario_state :: sampler_state where
  "scenario_state =
     \<lparr>document_word_topics_MC = [(''d1'', [[1], [2], [1]]), (''d2'', [[2], [1]])],
      document_topic_counts =
        [''d1'' \<mapsto> (\<lambda>_. 0)(1 := 2, 2 := 1), ''d2'' \<mapsto> (\<lambda>_. 0)(1 := 1, 2 := 1)],
      word_topic_counts =
        [''a'' \<mapsto> (\<lambda>_. 0)(1 := 2), ''b'' \<mapsto> (\<lambda>_. 0)(1 := 1, 2 := 2)],
      total_topic_counts = (\<lambda>_. 0)(1 := 3, 2 := 2)\<rparr>"



text \<open>
  The order in which \<open>fit\<close> visits the token occurrences: \<open>niter\<close> times over the
  documents in corpus order and, within a document, the positions in order.
  \<open>resample_occ\<close> is the loop body at one occurrence.
\<close>

definition occurrences :: "corpus \<Rightarrow> (doc_id \<times> nat \<times> token) list" where
  "occurrences corp =
     concat (map (\<lambda>(doc, words). map (\<lambda>(i, word). (doc, i, word)) (enumerate 0 words)) corp)"

definition schedule :: "lda \<Rightarrow> int \<Rightarrow> (doc_id \<times> nat \<times> token) list" where
  "schedule m niter = concat (replicate (nat niter) (occurrences (iden_to_tokens m)))"

definition resample_occ ::
  "lda \<Rightarrow> rat \<Rightarrow> rat \<Rightarrow> doc_id \<times> nat \<times> token \<Rightarrow> sampler_state \<times> rat gen
     \<Rightarrow> error + (sampler_state \<times> rat gen)" where
  "resample_occ m alpha beta = (\<lambda>(doc, i, word). resample_token m alpha beta doc (i, word))"

text \<open>
  The current topic of each occurrence of a document is the last element of its
  history. A state is consistent with a corpus when the chain dictionary has the
  corpus's documents, one non-empty history with a last topic between 1 and \<open>K\<close> per
  token, and every count table holds exactly the number of occurrences that the
  current topics give: per document and topic, per word and topic, and per topic.
\<close>

definition cur_topics :: "(doc_id \<times> chains) list \<Rightarrow> doc_id \<Rightarrow> int list" where
  "cur_topics mc doc = (case map_of mc doc of None \<Rightarrow> [] | Some chs \<Rightarrow> map last chs)"

definition dcount :: "(doc_id \<times> chains) list \<Rightarrow> int \<Rightarrow> doc_id \<times> token list \<Rightarrow> int" where
  "dcount mc k = (\<lambda>(doc, words). int (count_list (cur_topics mc doc) k))"

definition wcount :: "(doc_id \<times> chains) list \<Rightarrow> token \<Rightarrow> int \<Rightarrow> doc_id \<times> token list \<Rightarrow> int"
  where
  "wcount mc w k = (\<lambda>(doc, words). int (count_list (zip words (cur_topics mc doc)) (w, k)))"

definition consistent :: "corpus \<Rightarrow> token list \<Rightarrow> int \<Rightarrow> sampler_state \<Rightarrow> bool" where
  "consistent corp vocab K s \<longleftrightarrow>
     map fst (document_word_topics_MC s) = map fst corp
   \<and> (\<forall>(doc, words) \<in> set corp.
        \<exists>chs. map_of (document_word_topics_MC s) doc = Some chs \<and> length chs = length words
           \<and> (\<forall>ch \<in> set chs. ch \<noteq> [] \<and> 1 \<le> last ch \<and> last ch \<le> K))
   \<and> (\<forall>(doc, words) \<in> set corp.
        \<exists>cd. document_topic_counts s doc = Some cd
           \<and> (\<forall>k. cd k = dcount (document_word_topics_MC s) k (doc, words)))
   \<and> (\<forall>w \<in> set vocab.
        \<exists>cw. word_topic_counts s w = Some cw
           \<and> (\<forall>k. cw k = sum_list (map (wcount (document_word_topics_MC s) w k) corp)))
   \<and> (\<forall>k. total_topic_counts s k = sum_list (map (dcount (document_word_topics_MC s) k) corp))"

text \<open>
  The topics that the initializer adds to a word's counter for one document, and the
  invariant of its loop over the documents: the state is consistent with the documents
  done, and the counters of the others are still empty.
\<close>

definition word_topics :: "token list \<Rightarrow> int list \<Rightarrow> token \<Rightarrow> int list" where
  "word_topics words topics w =
     map snd (filter (\<lambda>(idx, topic). words ! idx = w) (enumerate 0 topics))"

definition init_inv :: "corpus \<Rightarrow> token list \<Rightarrow> int \<Rightarrow> corpus \<Rightarrow> sampler_state \<times> nat gen \<Rightarrow> bool"
  where
  "init_inv corp vocab K pre st \<longleftrightarrow>
     consistent pre vocab K (fst st)
   \<and> (\<forall>d. d \<in> set (map fst corp) \<longrightarrow> d \<notin> set (map fst pre)
          \<longrightarrow> document_topic_counts (fst st) d = Some (\<lambda>_. 0))"

text \<open>
  The state of the scenario after one reassignment: the first token of \<open>d1\<close> moves from
  topic 1 to topic 2.
\<close>

definition scenario_moved :: sampler_state where
  "scenario_moved =
     \<lparr>document_word_topics_MC = [(''d1'', [[1, 2], [2], [1]]), (''d2'', [[2], [1]])],
      document_topic_counts =
        [''d1'' \<mapsto> (\<lambda>_. 0)(1 := 1, 2 := 2), ''d2'' \<mapsto> (\<lambda>_. 0)(1 := 1, 2 := 1)],
      word_topic_counts =
        [''a'' \<mapsto> (\<lambda>_. 0)(1 := 1, 2 := 1), ''b'' \<mapsto> (\<lambda>_. 0)(1 := 1, 2 := 2)],
      total_topic_counts = (\<lambda>_. 0)(1 := 2, 2 := 3)\<rparr>"





section \<open>Properties of the aggregator\<close>

lemma map_err_Inr:
  assumes "\<And>x. x \<in> set xs \<Longrightarrow> f x = Inr (g x)"
  shows "map_err f xs = Inr (map g xs)"
  using assms by (induction xs) simp_all

lemma mode_fold:
  assumes "sorted ss" and "distinct ss"
    and "\<And>x y. x \<in> S \<Longrightarrow> y \<in> set ss \<Longrightarrow> x < y"
    and "\<And>y. y \<in> set ss \<Longrightarrow> 0 < count_list a y"
    and "\<And>x. x \<in> S \<Longrightarrow> count_list a x \<le> c"
    and "\<And>x. x \<in> S \<Longrightarrow> count_list a x = c \<Longrightarrow> m \<le> x"
    and "S \<noteq> {} \<Longrightarrow> m \<in> S \<and> c = count_list a m"
    and "S = {} \<Longrightarrow> c = 0"
    and "S \<noteq> {} \<or> ss \<noteq> []"
  shows "fst (fold (mode_step a) ss (m, c)) \<in> S \<union> set ss
       \<and> snd (fold (mode_step a) ss (m, c)) = count_list a (fst (fold (mode_step a) ss (m, c)))
       \<and> (\<forall>x \<in> S \<union> set ss. count_list a x \<le> snd (fold (mode_step a) ss (m, c)))
       \<and> (\<forall>x \<in> S \<union> set ss. count_list a x = snd (fold (mode_step a) ss (m, c))
            \<longrightarrow> fst (fold (mode_step a) ss (m, c)) \<le> x)"
  using assms
proof (induction ss arbitrary: S m c)
  case Nil
  then show ?case by auto
next
  case (Cons s ss)
  let ?acc = "mode_step a s (m, c)"
  have lt: "\<And>x. x \<in> S \<Longrightarrow> x < s" using Cons.prems(3) by simp
  have s_lt: "\<And>y. y \<in> set ss \<Longrightarrow> s < y" using Cons.prems(1,2) by (auto simp: less_le)
  have pos: "0 < count_list a s" using Cons.prems(4) by simp
  have step: "fst ?acc \<in> insert s S \<and> snd ?acc = count_list a (fst ?acc)
      \<and> (\<forall>x \<in> insert s S. count_list a x \<le> snd ?acc)
      \<and> (\<forall>x \<in> insert s S. count_list a x = snd ?acc \<longrightarrow> fst ?acc \<le> x)"
  proof (cases "c < count_list a s")
    case True
    then have acc: "?acc = (s, count_list a s)" by (simp add: mode_step_def)
    show ?thesis unfolding acc using True Cons.prems(5) by fastforce
  next
    case False
    then have acc: "?acc = (m, c)" by (simp add: mode_step_def)
    from False pos have "S \<noteq> {}" using Cons.prems(8) by auto
    then have mS: "m \<in> S" "c = count_list a m" using Cons.prems(7) by auto
    show ?thesis unfolding acc using False mS lt Cons.prems(5,6) by (auto simp: less_imp_le)
  qed
  have "fst (fold (mode_step a) ss (fst ?acc, snd ?acc)) \<in> insert s S \<union> set ss
       \<and> snd (fold (mode_step a) ss (fst ?acc, snd ?acc))
           = count_list a (fst (fold (mode_step a) ss (fst ?acc, snd ?acc)))
       \<and> (\<forall>x \<in> insert s S \<union> set ss.
             count_list a x \<le> snd (fold (mode_step a) ss (fst ?acc, snd ?acc)))
       \<and> (\<forall>x \<in> insert s S \<union> set ss.
             count_list a x = snd (fold (mode_step a) ss (fst ?acc, snd ?acc))
             \<longrightarrow> fst (fold (mode_step a) ss (fst ?acc, snd ?acc)) \<le> x)"
  proof (rule Cons.IH)
    show "sorted ss" using Cons.prems(1) by simp
    show "distinct ss" using Cons.prems(2) by simp
    show "\<And>x y. x \<in> insert s S \<Longrightarrow> y \<in> set ss \<Longrightarrow> x < y"
      using s_lt Cons.prems(3) by auto
    show "\<And>y. y \<in> set ss \<Longrightarrow> 0 < count_list a y" using Cons.prems(4) by simp
    show "\<And>x. x \<in> insert s S \<Longrightarrow> count_list a x \<le> snd ?acc" using step by blast
    show "\<And>x. x \<in> insert s S \<Longrightarrow> count_list a x = snd ?acc \<Longrightarrow> fst ?acc \<le> x"
      using step by blast
    show "insert s S \<noteq> {} \<Longrightarrow> fst ?acc \<in> insert s S \<and> snd ?acc = count_list a (fst ?acc)"
      using step by blast
    show "insert s S = {} \<Longrightarrow> snd ?acc = 0" by simp
    show "insert s S \<noteq> {} \<or> ss \<noteq> []" by simp
  qed
  then show ?case by auto
qed

lemma mode_is_least_most_frequent:
  assumes "a \<noteq> []"
  shows "\<exists>t. mode a = Inr t \<and> t \<in> set a
       \<and> (\<forall>x. count_list a x \<le> count_list a t)
       \<and> (\<forall>x. count_list a x = count_list a t \<longrightarrow> t \<le> x)"
proof -
  let ?r = "fold (mode_step a) (sort (remdups a)) (0, 0)"
  have r: "fst ?r \<in> {} \<union> set (sort (remdups a))
       \<and> snd ?r = count_list a (fst ?r)
       \<and> (\<forall>x \<in> {} \<union> set (sort (remdups a)). count_list a x \<le> snd ?r)
       \<and> (\<forall>x \<in> {} \<union> set (sort (remdups a)). count_list a x = snd ?r \<longrightarrow> fst ?r \<le> x)"
  proof (rule mode_fold)
    show "\<And>y. y \<in> set (sort (remdups a)) \<Longrightarrow> 0 < count_list a y"
      by (simp add: count_list_0_iff zero_less_iff_neq_zero)
    show "{} \<noteq> {} \<or> sort (remdups a) \<noteq> []"
      using assms by (metis set_empty set_remdups set_sort)
  qed simp_all
  have in_a: "fst ?r \<in> set a" using r by simp
  then have pos: "0 < count_list a (fst ?r)"
    by (simp add: count_list_0_iff zero_less_iff_neq_zero)
  have le: "count_list a x \<le> count_list a (fst ?r)" for x
  proof (cases "x \<in> set a")
    case True
    then show ?thesis using r by auto
  next
    case False
    then show ?thesis by simp
  qed
  have least: "fst ?r \<le> x" if "count_list a x = count_list a (fst ?r)" for x
  proof -
    from that pos have "x \<in> set a" by (metis count_list_0_iff less_numeral_extra(3))
    then show ?thesis using r that by auto
  qed
  show ?thesis using assms in_a le least by (simp add: mode_def)
qed

text \<open>
  C5. For a chain dictionary (distinct keys) in which every occurrence has a non-empty
  history, \<open>_compute_MC_topic_approx\<close> returns, for every document and position, a
  label taken from that occurrence's whole history (no element is discarded), whose
  frequency in the history is maximal, and which is the lowest label among those of
  maximal frequency.
\<close>

theorem compute_MC_topic_approx_mode:
  assumes "distinct (map fst mc)"
    and "\<forall>(doc, chs) \<in> set mc. [] \<notin> set chs"
  shows "\<exists>out. compute_MC_topic_approx mc = Inr out \<and> map fst out = map fst mc
       \<and> (\<forall>doc chs. (doc, chs) \<in> set mc \<longrightarrow>
            (\<exists>labels. map_of out doc = Some labels \<and> length labels = length chs
               \<and> (\<forall>i < length chs.
                     labels ! i \<in> set (chs ! i)
                   \<and> (\<forall>t. count_list (chs ! i) t \<le> count_list (chs ! i) (labels ! i))
                   \<and> (\<forall>t. count_list (chs ! i) t = count_list (chs ! i) (labels ! i)
                         \<longrightarrow> labels ! i \<le> t))))"
proof -
  define lab where "lab = (\<lambda>ch. case mode ch of Inr t \<Rightarrow> t | Inl e \<Rightarrow> 0)"
  have mode_lab: "mode ch = Inr (lab ch)" if "ch \<noteq> []" for ch
    using mode_is_least_most_frequent [OF that] by (auto simp: lab_def)
  have inner: "map_err
         (\<lambda>(i, word). case map_of mc doc of
              None \<Rightarrow> Inl KeyError
            | Some chs' \<Rightarrow> if i < length chs' then mode (chs' ! i) else Inl IndexError)
         (enumerate 0 chs) = Inr (map (\<lambda>(i, word). lab word) (enumerate 0 chs))"
    if "(doc, chs) \<in> set mc" for doc chs
  proof (rule map_err_Inr)
    fix x assume x: "x \<in> set (enumerate 0 chs)"
    obtain i word where xi: "x = (i, word)" by (cases x)
    from x xi have i: "i < length chs" "word = chs ! i" by (auto simp: in_set_enumerate_eq)
    have look: "map_of mc doc = Some chs" using assms(1) that by simp
    have "chs ! i \<noteq> []" using assms(2) that i(1) by (metis case_prodD nth_mem)
    then show "(case x of (i, word) \<Rightarrow> case map_of mc doc of
              None \<Rightarrow> Inl KeyError
            | Some chs' \<Rightarrow> if i < length chs' then mode (chs' ! i) else Inl IndexError)
          = Inr (case x of (i, word) \<Rightarrow> lab word)"
      using xi i look mode_lab by simp
  qed
  have labs: "map (\<lambda>(i, word). lab word) (enumerate 0 chs) = map lab chs" for chs :: chains
    by (rule nth_equalityI) (simp_all add: nth_enumerate_eq)
  define out where "out = map (\<lambda>(doc, chs). (doc, map lab chs)) mc"
  have res: "compute_MC_topic_approx mc = Inr out"
    unfolding compute_MC_topic_approx_def out_def
    by (rule map_err_Inr) (auto simp: inner labs)
  have keys: "map fst out = map fst mc" by (auto simp: out_def)
  have look_out: "map_of out doc = Some (map lab chs)" if "(doc, chs) \<in> set mc" for doc chs
  proof -
    have "(doc, map lab chs) \<in> set out" using that by (force simp: out_def)
    moreover have "distinct (map fst out)" using keys assms(1) by simp
    ultimately show ?thesis by simp
  qed
  have "\<exists>labels. map_of out doc = Some labels \<and> length labels = length chs
       \<and> (\<forall>i < length chs.
             labels ! i \<in> set (chs ! i)
           \<and> (\<forall>t. count_list (chs ! i) t \<le> count_list (chs ! i) (labels ! i))
           \<and> (\<forall>t. count_list (chs ! i) t = count_list (chs ! i) (labels ! i)
                 \<longrightarrow> labels ! i \<le> t))"
    if mem: "(doc, chs) \<in> set mc" for doc chs
  proof (intro exI conjI allI impI)
    show "map_of out doc = Some (map lab chs)" by (rule look_out [OF mem])
    show "length (map lab chs) = length chs" by simp
  next
    fix i assume i: "i < length chs"
    have ne: "chs ! i \<noteq> []" using assms(2) mem i by (metis case_prodD nth_mem)
    from mode_is_least_most_frequent [OF ne] mode_lab [OF ne]
    have props: "lab (chs ! i) \<in> set (chs ! i)"
      "\<And>x. count_list (chs ! i) x \<le> count_list (chs ! i) (lab (chs ! i))"
      "\<And>x. count_list (chs ! i) x = count_list (chs ! i) (lab (chs ! i)) \<Longrightarrow> lab (chs ! i) \<le> x"
      by auto
    show "map lab chs ! i \<in> set (chs ! i)" using i props(1) by simp
    show "count_list (chs ! i) t \<le> count_list (chs ! i) (map lab chs ! i)" for t
      using i props(2) by simp
    show "map lab chs ! i \<le> t"
      if "count_list (chs ! i) t = count_list (chs ! i) (map lab chs ! i)" for t
      using i props(3) that by simp
  qed
  with res keys show ?thesis by blast
qed

theorem compute_MC_topic_approx_mode_witness:
  "compute_MC_topic_approx [(''d1'', [[1, 2, 2], [2, 1]]), (''d2'', [[3]])]
     = Inr [(''d1'', [2, 1]), (''d2'', [3])]
   \<and> (\<exists>out. compute_MC_topic_approx [(''d1'', [[1, 2, 2], [2, 1]]), (''d2'', [[3]])] = Inr out
       \<and> map fst out = map fst [(''d1'', [[1, 2, 2], [2, 1]]), (''d2'', [[3::int]])]
       \<and> (\<forall>doc chs. (doc, chs) \<in> set [(''d1'', [[1, 2, 2], [2, 1]]), (''d2'', [[3]])] \<longrightarrow>
            (\<exists>labels. map_of out doc = Some labels \<and> length labels = length chs
               \<and> (\<forall>i < length chs.
                     labels ! i \<in> set (chs ! i)
                   \<and> (\<forall>t. count_list (chs ! i) t \<le> count_list (chs ! i) (labels ! i))
                   \<and> (\<forall>t. count_list (chs ! i) t = count_list (chs ! i) (labels ! i)
                         \<longrightarrow> labels ! i \<le> t)))))"
proof (rule conjI)
  show "compute_MC_topic_approx [(''d1'', [[1, 2, 2], [2, 1]]), (''d2'', [[3]])]
     = Inr [(''d1'', [2, 1]), (''d2'', [3])]"
    by (simp add: compute_MC_topic_approx_def mode_def mode_step_def enumerate_eq_zip
        upt_conv_Cons)
qed (rule compute_MC_topic_approx_mode, simp_all)

section \<open>Loops\<close>

lemma for_each_prefix:
  assumes "I [] s"
    and "\<And>pre x post t. xs = pre @ x # post \<Longrightarrow> I pre t \<Longrightarrow> \<exists>t'. body x t = Inr t' \<and> I (pre @ [x]) t'"
  shows "\<exists>s'. for_each body xs s = Inr s' \<and> I xs s'"
proof -
  have "I pre t \<Longrightarrow> xs = pre @ ys \<Longrightarrow> \<exists>s'. for_each body ys t = Inr s' \<and> I xs s'" for pre ys t
  proof (induction ys arbitrary: pre t)
    case Nil
    then show ?case by simp
  next
    case (Cons y ys)
    from assms(2) [OF Cons.prems(2) Cons.prems(1)]
    obtain t' where t': "body y t = Inr t'" "I (pre @ [y]) t'" by blast
    from Cons.IH [OF t'(2)] Cons.prems(2) t'(1) show ?case by simp
  qed
  from this [of "[]" s xs] assms(1) show ?thesis by simp
qed

lemma for_each_invariant:
  assumes "for_each body xs s = Inr s'" and "I s"
    and "\<And>x t t'. x \<in> set xs \<Longrightarrow> I t \<Longrightarrow> body x t = Inr t' \<Longrightarrow> I t'"
  shows "I s'"
  using assms
proof (induction xs arbitrary: s)
  case Nil
  then show ?case by simp
next
  case (Cons x xs)
  from Cons.prems(1) obtain t where t: "body x s = Inr t" "for_each body xs t = Inr s'"
    by (auto split: sum.splits)
  have "I t" using Cons.prems(3) [of x s t] Cons.prems(2) t(1) by simp
  moreover have "\<And>y u u'. y \<in> set xs \<Longrightarrow> I u \<Longrightarrow> body y u = Inr u' \<Longrightarrow> I u'"
    using Cons.prems(3) by (meson list.set_intros(2))
  ultimately show ?case using Cons.IH [OF t(2)] by blast
qed

lemma for_each_append:
  "for_each body (xs @ ys) s =
     (case for_each body xs s of Inl e \<Rightarrow> Inl e | Inr s' \<Rightarrow> for_each body ys s')"
  by (induction xs arbitrary: s) (auto split: sum.splits)

lemma for_each_concat:
  "for_each (\<lambda>xs. for_each body xs) xss s = for_each body (concat xss) s"
  by (induction xss arbitrary: s) (auto simp: for_each_append split: sum.splits)

lemma for_each_map:
  "for_each body (map f xs) s = for_each (\<lambda>x. body (f x)) xs s"
  by (induction xs arbitrary: s) (auto split: sum.splits)

section \<open>The scenario\<close>

lemma upto_1_2: "[1..2] = [1, 2::int]"
  by (simp add: upto_rec1)

lemma scenario_init: "init (\<lambda>shape. None) scenario_corpus 2 5 7 = Inr scenario_model"
  by (simp add: init_def get_unique_words_def np_zeros_def scenario_corpus_def
      scenario_model_def numeral_2_eq_2)

lemma scenario_initialize:
  "initialize_topics scenario_model (\<lambda>i. i) = Inr (scenario_state, gen_drop 2 (gen_drop 3 (\<lambda>i. i)))"
  by (simp add: initialize_topics_def init_doc_def empty_state_def scenario_model_def
      scenario_corpus_def randint_def gen_take_def update_word_def counter_update_def
      scenario_state_def enumerate_eq_zip upt_conv_Cons Let_def fun_eq_iff gen_drop_def)

section \<open>The constructor\<close>

text \<open>
  C8 (as stated). The claim has the constructor reject \<open>K \<le> 0\<close>, \<open>alpha \<le> 0\<close> and
  \<open>beta \<le> 0\<close>. It does not: with \<open>K = 0\<close>, \<open>alpha = 0\<close> and \<open>beta = -1\<close>, on a
  platform that refuses no array, it returns an instance.
\<close>

theorem init_rejects_nothing_counterexample:
  "init (\<lambda>shape. None) [(''d1'', [''a''])] 0 0 (- 1)
     = Inr \<lparr>iden_to_tokens = [(''d1'', [''a''])], self_K = 0, self_alpha = 0, self_beta = - 1,
            vocabulary = [''a''], self_W = 1, theta_matrix = [], phi_matrix = []\<rparr>"
  by (simp add: init_def get_unique_words_def np_zeros_def)

text \<open>
  C8 (amended). A corpus without tokens and \<open>K < 0\<close> surface an error at construction
  (the vocabulary indexer's, and the \<open>ValueError\<close> of the matrix allocation). \<open>K = 0\<close>,
  \<open>alpha \<le> 0\<close> and \<open>beta \<le> 0\<close> do not: \<open>__init__\<close> checks none of its arguments, and
  whenever the corpus has a token, \<open>K \<ge> 0\<close> and the platform grants the two matrices,
  it returns the instance, with \<open>alpha\<close> and \<open>beta\<close> stored as given.
\<close>

theorem init_checks:
  "(concat (map snd corp) = [] \<longrightarrow> init alloc corp K alpha beta = Inl InitializationError)
   \<and> (concat (map snd corp) \<noteq> [] \<and> K < 0 \<longrightarrow> init alloc corp K alpha beta = Inl ValueError)
   \<and> (concat (map snd corp) \<noteq> [] \<and> 0 \<le> K \<and> alloc [nat K, length corp] = None
        \<and> alloc [nat K, length (remdups (concat (map snd corp)))] = None \<longrightarrow>
      init alloc corp K alpha beta
        = Inr \<lparr>iden_to_tokens = corp, self_K = K, self_alpha = alpha, self_beta = beta,
               vocabulary = remdups (concat (map snd corp)),
               self_W = length (remdups (concat (map snd corp))),
               theta_matrix = replicate (nat K) (replicate (length corp) 0),
               phi_matrix = replicate (nat K)
                 (replicate (length (remdups (concat (map snd corp)))) 0)\<rparr>)"
  by (simp add: init_def get_unique_words_def np_zeros_def)

theorem init_checks_witness:
  "init (\<lambda>shape. None) [(''d1'', [])] 2 1 1 = Inl InitializationError
   \<and> init (\<lambda>shape. None) [(''d1'', [''a''])] (- 1) 1 1 = Inl ValueError
   \<and> init (\<lambda>shape. None) [(''d1'', [''a'', ''b'']), (''d2'', [''a''])] 3 (- 2) 0
       = Inr \<lparr>iden_to_tokens = [(''d1'', [''a'', ''b'']), (''d2'', [''a''])], self_K = 3,
              self_alpha = - 2, self_beta = 0, vocabulary = [''b'', ''a''], self_W = 2,
              theta_matrix = [[0, 0], [0, 0], [0, 0]], phi_matrix = [[0, 0], [0, 0], [0, 0]]\<rparr>"
  using init_checks [of "[(''d1'', [])]" "\<lambda>shape. None" 2 1 1]
    init_checks [of "[(''d1'', [''a''])]" "\<lambda>shape. None" "- 1" 1 1]
    init_checks [of "[(''d1'', [''a'', ''b'']), (''d2'', [''a''])]" "\<lambda>shape. None" 3 "- 2" 0]
  by (simp add: numeral_3_eq_3 numeral_2_eq_2)

section \<open>The conditional densities\<close>

lemma fold_update_other:
  assumes "\<And>k. k \<in> set ks \<Longrightarrow> idx k \<noteq> j"
  shows "fold (\<lambda>k d. d[idx k := F k]) ks d ! j = d ! j"
  using assms by (induction ks arbitrary: d) simp_all

lemma length_fold_update [simp]:
  "length (fold (\<lambda>k d. d[idx k := F k]) ks d) = length d"
  by (induction ks arbitrary: d) simp_all

lemma fold_update_nth:
  assumes "inj_on idx (set ks)" and "k \<in> set ks" and "idx k < length d"
  shows "fold (\<lambda>k d. d[idx k := F k]) ks d ! idx k = F k"
  using assms
proof (induction ks arbitrary: d)
  case Nil
  then show ?case by simp
next
  case (Cons x xs)
  have inj: "inj_on idx (set xs)" using Cons.prems(1) by (simp add: inj_on_def)
  show ?case
  proof (cases "k \<in> set xs")
    case True
    then show ?thesis using Cons.IH [OF inj True] Cons.prems(3) by simp
  next
    case False
    then have kx: "k = x" using Cons.prems(2) by simp
    have "\<And>k'. k' \<in> set xs \<Longrightarrow> idx k' \<noteq> idx k"
      using Cons.prems(1) False kx by (auto simp: inj_on_def)
    then have "fold (\<lambda>k d. d[idx k := F k]) xs (d[idx x := F x]) ! idx k = d[idx x := F x] ! idx k"
      by (rule fold_update_other)
    then show ?thesis using kx Cons.prems(3) by simp
  qed
qed

lemma set_density_fold:
  assumes "document_topic_counts s doc = Some cd" and "word_topic_counts s word = Some cw"
    and "\<And>k. k \<in> set ks \<Longrightarrow>
           of_int (total_topic_counts s k - (if k = c then 1 else 0)) + of_nat (self_W m) * beta \<noteq> 0"
  shows "for_each (set_density m alpha beta s doc word c) ks d
       = Inr (fold (\<lambda>k d. d[nat (k - 1) :=
                density_of m alpha beta cd cw (total_topic_counts s) c k]) ks d)"
  using assms(3)
proof (induction ks arbitrary: d)
  case Nil
  then show ?case by simp
next
  case (Cons k ks)
  have "set_density m alpha beta s doc word c k d
      = Inr (d[nat (k - 1) := density_of m alpha beta cd cw (total_topic_counts s) c k])"
    using assms(1,2) Cons.prems [of k]
    by (cases "c = k") (auto simp: set_density_def density_of_def Let_def)
  then show ?case using Cons by simp
qed

lemma densities_map:
  "fold (\<lambda>k d. d[nat (k - 1) := F k]) [1..K] (replicate (nat K) 0) = map F [1..K]"
proof (rule nth_equalityI)
  show "length (fold (\<lambda>k d. d[nat (k - 1) := F k]) [1..K] (replicate (nat K) 0)) = length (map F [1..K])"
    by simp
next
  fix j assume "j < length (fold (\<lambda>k d. d[nat (k - 1) := F k]) [1..K] (replicate (nat K) 0))"
  then have j: "j < nat K" by simp
  define k where "k = int j + 1"
  have k: "k \<in> set [1..K]" "nat (k - 1) = j" using j by (auto simp: k_def)
  have "inj_on (\<lambda>k. nat (k - 1)) (set [1..K])" by (auto simp: inj_on_def)
  from fold_update_nth [OF this k(1), of "replicate (nat K) 0" F] j k(2)
  have "fold (\<lambda>k d. d[nat (k - 1) := F k]) [1..K] (replicate (nat K) 0) ! j = F k" by simp
  also have "\<dots> = map F [1..K] ! j" using j by (simp add: k_def add.commute)
  finally show "fold (\<lambda>k d. d[nat (k - 1) := F k]) [1..K] (replicate (nat K) 0) ! j = map F [1..K] ! j" .
qed

lemma compute_densities:
  assumes "document_topic_counts s doc = Some cd" and "word_topic_counts s word = Some cw"
    and "\<And>k. 1 \<le> k \<Longrightarrow> k \<le> self_K m \<Longrightarrow>
           of_int (total_topic_counts s k - (if k = c then 1 else 0)) + of_nat (self_W m) * beta \<noteq> 0"
  shows "for_each (set_density m alpha beta s doc word c) [1..self_K m] (replicate (nat (self_K m)) 0)
       = Inr (map (density_of m alpha beta cd cw (total_topic_counts s) c) [1..self_K m])"
  using set_density_fold [OF assms(1,2), of "[1..self_K m]" c m beta alpha] assms(3)
  by (simp add: densities_map)

section \<open>Self-transitions\<close>

text \<open>
  C4. If a resampling step succeeds and the topic it appended to the occurrence's
  history equals the topic that was current before, the three count tables are
  unchanged, and the chain dictionary differs only by that appended topic.
\<close>

theorem self_transition:
  assumes "resample_token m alpha beta doc (i, word) (s, g) = Inr (s', g')"
    and "map_of (document_word_topics_MC s) doc = Some chs"
    and "map_of (document_word_topics_MC s') doc = Some chs'"
    and "last (chs' ! i) = last (chs ! i)"
  shows "document_topic_counts s' = document_topic_counts s
       \<and> word_topic_counts s' = word_topic_counts s
       \<and> total_topic_counts s' = total_topic_counts s
       \<and> document_word_topics_MC s' =
           AList.update doc (chs[i := chs ! i @ [last (chs ! i)]]) (document_word_topics_MC s)"
  using assms
  by (auto simp: resample_token_def Let_def update_conv' split: sum.splits option.splits if_splits)

theorem self_transition_witness:
  "resample_token scenario_model 1 1 ''d1'' (0, ''a'') (scenario_state, \<lambda>_. 0)
     = Inr (scenario_state\<lparr>document_word_topics_MC :=
              [(''d1'', [[1, 1], [2], [1]]), (''d2'', [[2], [1]])]\<rparr>, gen_drop 1 (\<lambda>_. 0))
   \<and> document_topic_counts (scenario_state\<lparr>document_word_topics_MC :=
              [(''d1'', [[1, 1], [2], [1]]), (''d2'', [[2], [1]])]\<rparr>)
       = document_topic_counts scenario_state
   \<and> word_topic_counts (scenario_state\<lparr>document_word_topics_MC :=
              [(''d1'', [[1, 1], [2], [1]]), (''d2'', [[2], [1]])]\<rparr>)
       = word_topic_counts scenario_state
   \<and> total_topic_counts (scenario_state\<lparr>document_word_topics_MC :=
              [(''d1'', [[1, 1], [2], [1]]), (''d2'', [[2], [1]])]\<rparr>)
       = total_topic_counts scenario_state"
proof -
  have step: "resample_token scenario_model 1 1 ''d1'' (0, ''a'') (scenario_state, \<lambda>_. 0)
     = Inr (scenario_state\<lparr>document_word_topics_MC :=
              [(''d1'', [[1, 1], [2], [1]]), (''d2'', [[2], [1]])]\<rparr>, gen_drop 1 (\<lambda>_. 0))"
    by (simp add: resample_token_def np_zeros1_def scenario_model_def scenario_state_def
        set_density_def choices_def accumulate_def bisect.simps Let_def upto_1_2
        numeral_2_eq_2)
  from self_transition [OF step, of "[[1], [2], [1]]" "[[1, 1], [2], [1]]"] step
  show ?thesis by (simp add: scenario_state_def)
qed

section \<open>The top-words query before any run\<close>

lemma init_fields:
  assumes "init alloc corp K alpha beta = Inr m"
  shows "concat (map snd corp) \<noteq> []" and "0 \<le> K"
    and "iden_to_tokens m = corp" and "self_K m = K"
    and "vocabulary m = remdups (concat (map snd corp))"
    and "self_W m = length (vocabulary m)"
    and "theta_matrix m = replicate (nat K) (replicate (length corp) 0)"
    and "phi_matrix m = replicate (nat K) (replicate (length (vocabulary m)) 0)"
  using assms
  by (auto simp: init_def get_unique_words_def np_zeros_def split: if_splits option.splits)

lemma length_py_take:
  "length (py_take n xs) = (if 0 \<le> n then min (nat n) (length xs) else length xs - nat (- n))"
  by (auto simp: py_take_def)

lemma set_py_take: "set (py_take n xs) \<subseteq> set xs"
  by (auto simp: py_take_def dest: in_set_takeD)

lemma distinct_py_take: "distinct xs \<Longrightarrow> distinct (py_take n xs)"
  by (simp add: py_take_def)

lemma around4_zero: "around4 0 = 0"
  by (simp add: around4_def rint_def)

lemma topic_keys: "map (\<lambda>k. int k + 1) [0..<nat K] = [1..K]"
  by (rule nth_equalityI) (simp_all add: add.commute)

lemma argsort_spec_stable: "argsort_spec stable_argsort"
  by (simp add: argsort_spec_def stable_argsort_def)

text \<open>
  C9 (as stated). The claim has \<open>get_top_n_words\<close> raise before any run. On the freshly
  constructed instance of the scenario it returns a word for each topic.
\<close>

theorem get_top_n_words_before_fit_counterexample:
  "\<exists>m. init (\<lambda>shape. None) [(''d1'', [''a'', ''b'', ''a'']), (''d2'', [''b'', ''b''])] 2 (1 / 10)
         (1 / 10) = Inr m
     \<and> get_top_n_words stable_argsort m 1 False = Inr [(1, Words [''b'']), (2, Words [''b''])]"
  by (simp add: init_def get_unique_words_def np_zeros_def get_top_n_words_def
      stable_argsort_def py_take_def Let_def upt_conv_Cons numeral_2_eq_2)

text \<open>
  C9 (amended). On a freshly constructed instance \<open>get_top_n_words\<close> raises nothing:
  whatever order \<open>argsort\<close> gives to the equal entries of the all-zero matrix, it returns
  for each topic from 1 to \<open>K\<close> as many distinct words of the vocabulary as the slice
  \<open>[:n]\<close> keeps, each paired with probability 0 when \<open>return_probs\<close> is set.
\<close>

theorem get_top_n_words_before_fit:
  assumes "init alloc corp K alpha beta = Inr m" and "argsort_spec argsort"
  shows "\<exists>r. get_top_n_words argsort m n return_probs = Inr r \<and> map fst r = [1..K]
       \<and> (\<forall>(k, tw) \<in> set r. \<exists>ws. distinct ws \<and> set ws \<subseteq> set (vocabulary m)
             \<and> length ws = length (py_take n (vocabulary m))
             \<and> tw = (if return_probs then WordProbs (map (\<lambda>w. (w, 0)) ws) else Words ws))"
proof -
  note f = init_fields [OF assms(1)]
  let ?row = "replicate (length (vocabulary m)) (0::rat)"
  define idx where "idx = py_take n (rev (argsort ?row))"
  define ws where "ws = map (\<lambda>i. vocabulary m ! i) idx"
  define entry where
    "entry = (if return_probs then WordProbs (map (\<lambda>w. (w, 0)) ws) else Words ws)"
  have perm: "set (argsort ?row) = {0..<length (vocabulary m)}" "distinct (argsort ?row)"
    using assms(2) by (auto simp: argsort_spec_def dest: spec [of _ ?row])
  have idx_lt: "\<And>i. i \<in> set idx \<Longrightarrow> i < length (vocabulary m)"
    using perm(1) set_py_take [of n "rev (argsort ?row)"] by (auto simp: idx_def)
  have idx_dist: "distinct idx" using perm(2) by (simp add: idx_def distinct_py_take)
  have "length (argsort ?row) = length (vocabulary m)"
    using perm by (metis card_atLeastLessThan diff_zero distinct_card)
  then have idx_len: "length idx = length (py_take n (vocabulary m))"
    by (simp add: idx_def length_py_take)
  have dv: "distinct (vocabulary m)" by (simp add: f(5))
  have ws_dist: "distinct ws"
    unfolding ws_def using idx_dist idx_lt dv by (simp add: distinct_map inj_on_nth)
  have ws_sub: "set ws \<subseteq> set (vocabulary m)" using idx_lt by (auto simp: ws_def)
  have ws_len: "length ws = length (py_take n (vocabulary m))" using idx_len by (simp add: ws_def)
  have words: "map_err (\<lambda>i. if i < length (vocabulary m) then Inr (vocabulary m ! i)
                 else Inl IndexError) idx = Inr ws"
    unfolding ws_def by (rule map_err_Inr) (simp add: idx_lt)
  have probs: "map_err (\<lambda>i. if i < length ?row then Inr (around4 (?row ! i))
                 else Inl IndexError) idx = Inr (map (\<lambda>i. 0) idx)"
    by (rule map_err_Inr) (simp add: idx_lt around4_zero)
  have zip: "zip ws (map (\<lambda>i. 0::rat) idx) = map (\<lambda>w. (w, 0)) ws"
    by (simp add: ws_def zip_map_map zip_same_conv_map)
  have len: "length (phi_matrix m) = nat K" by (simp add: f(8))
  have res: "get_top_n_words argsort m n return_probs
      = Inr (map (\<lambda>k. (int k + 1, entry)) [0..<nat K])"
    unfolding get_top_n_words_def len
  proof (rule map_err_Inr)
    fix k assume "k \<in> set [0..<nat K]"
    then have "phi_matrix m ! k = ?row" by (simp add: f(8))
    then show "(let row = phi_matrix m ! k; top_n_idx = py_take n (rev (argsort row))
          in case map_err (\<lambda>i. if i < length (vocabulary m) then Inr (vocabulary m ! i)
                                else Inl IndexError) top_n_idx of
               Inl e \<Rightarrow> Inl e
             | Inr top_n_words \<Rightarrow>
                 if return_probs
                 then (case map_err (\<lambda>i. if i < length row then Inr (around4 (row ! i))
                                          else Inl IndexError) top_n_idx of
                         Inl e \<Rightarrow> Inl e
                       | Inr top_n_probs \<Rightarrow> Inr (int k + 1, WordProbs (zip top_n_words top_n_probs)))
                 else Inr (int k + 1, Words top_n_words))
        = Inr (int k + 1, entry)"
      using words probs zip by (simp add: Let_def idx_def [symmetric] entry_def)
  qed
  have keys: "map fst (map (\<lambda>k. (int k + 1, entry)) [0..<nat K]) = [1..K]"
    using topic_keys [of K] by (simp add: comp_def)
  have "\<forall>(k, tw) \<in> set (map (\<lambda>k. (int k + 1, entry)) [0..<nat K]).
          \<exists>ws. distinct ws \<and> set ws \<subseteq> set (vocabulary m)
             \<and> length ws = length (py_take n (vocabulary m))
             \<and> tw = (if return_probs then WordProbs (map (\<lambda>w. (w, 0)) ws) else Words ws)"
    using ws_dist ws_sub ws_len by (auto simp: entry_def)
  with res keys show ?thesis by blast
qed

theorem get_top_n_words_before_fit_witness:
  "\<exists>r. get_top_n_words stable_argsort scenario_model 1 True = Inr r \<and> map fst r = [1..2]
       \<and> (\<forall>(k, tw) \<in> set r. \<exists>ws. distinct ws \<and> set ws \<subseteq> set (vocabulary scenario_model)
             \<and> length ws = length (py_take 1 (vocabulary scenario_model))
             \<and> tw = (if True then WordProbs (map (\<lambda>w. (w, 0)) ws) else Words ws))"
  by (rule get_top_n_words_before_fit [OF scenario_init argsort_spec_stable])

section \<open>The phi estimates\<close>





section \<open>The order of the sweeps\<close>

lemma for_each_prefix_inv:
  assumes "for_each body xs s = Inr s'" and "I [] s"
    and "\<And>pre x post t t'. xs = pre @ x # post \<Longrightarrow> I pre t \<Longrightarrow> body x t = Inr t'
           \<Longrightarrow> I (pre @ [x]) t'"
  shows "I xs s'"
proof -
  have "I pre t \<Longrightarrow> xs = pre @ ys \<Longrightarrow> for_each body ys t = Inr s' \<Longrightarrow> I xs s'" for pre ys t
  proof (induction ys arbitrary: pre t)
    case Nil
    then show ?case by simp
  next
    case (Cons y ys)
    from Cons.prems(3) obtain t' where t': "body y t = Inr t'" "for_each body ys t' = Inr s'"
      by (auto split: sum.splits)
    have "I (pre @ [y]) t'" using assms(3) [OF Cons.prems(2) Cons.prems(1) t'(1)] .
    from Cons.IH [OF this _ t'(2)] Cons.prems(2) show ?case by simp
  qed
  from this [of "[]" s xs] assms(1,2) show ?thesis by simp
qed

lemma resample_occ_pair:
  "resample_occ m alpha beta (doc, x) = resample_token m alpha beta doc x"
  by (cases x) (simp add: resample_occ_def)

lemma sweep_document_occ:
  "sweep_document m alpha beta (doc, words) st
     = for_each (resample_occ m alpha beta)
         (map (\<lambda>(i, word). (doc, i, word)) (enumerate 0 words)) st"
proof -
  have "(\<lambda>x. resample_occ m alpha beta (doc, x)) = resample_token m alpha beta doc"
    by (rule ext) (rule resample_occ_pair)
  then show ?thesis by (simp add: sweep_document_def for_each_map)
qed

lemma sweep_occurrences:
  "sweep m alpha beta st = for_each (resample_occ m alpha beta) (occurrences (iden_to_tokens m)) st"
proof -
  have "sweep_document m alpha beta
      = (\<lambda>x. for_each (resample_occ m alpha beta)
           ((\<lambda>(doc, words). map (\<lambda>(i, word). (doc, i, word)) (enumerate 0 words)) x))"
    by (auto simp: fun_eq_iff sweep_document_occ)
  then show ?thesis
    by (simp add: sweep_def occurrences_def for_each_concat [symmetric] for_each_map)
qed

lemma gibbs_schedule:
  "gibbs m alpha beta niter st = for_each (resample_occ m alpha beta) (schedule m niter) st"
proof -
  have "sweep m alpha beta
      = for_each (resample_occ m alpha beta) (occurrences (iden_to_tokens m))"
    by (simp add: fun_eq_iff sweep_occurrences)
  then have "gibbs m alpha beta niter st
      = for_each (\<lambda>xs. for_each (resample_occ m alpha beta) xs)
          (map (\<lambda>j. occurrences (iden_to_tokens m)) [0..<nat niter]) st"
    by (simp add: gibbs_def for_each_map)
  then show ?thesis
    by (simp add: schedule_def for_each_concat map_replicate_const)
qed

lemma occurrences_valid:
  assumes "(doc, i, word) \<in> set (occurrences corp)"
  shows "\<exists>words. (doc, words) \<in> set corp \<and> i < length words \<and> word = words ! i"
  using assms by (auto simp: occurrences_def in_set_enumerate_eq)

lemma schedule_valid:
  assumes "(doc, i, word) \<in> set (schedule m niter)"
  shows "\<exists>words. (doc, words) \<in> set (iden_to_tokens m) \<and> i < length words \<and> word = words ! i"
  using assms occurrences_valid by (auto simp: schedule_def split: if_splits)

section \<open>The weighted draw\<close>

lemma bisect_le: "lo \<le> hi \<Longrightarrow> bisect a x lo hi \<le> hi"
proof (induction a x lo hi rule: bisect.induct)
  case (1 a x lo hi)
  show ?case
  proof (cases "lo < hi")
    case True
    then have mid: "lo \<le> (lo + hi) div 2" "(lo + hi) div 2 + 1 \<le> hi" by auto
    show ?thesis
    proof (cases "x < a ! ((lo + hi) div 2)")
      case lt: True
      with True "1.IH"(1) [OF True refl lt mid(1)] show ?thesis
        by (subst bisect.simps) (simp add: Let_def)
    next
      case ge: False
      with True "1.IH"(2) [OF True refl ge mid(2)] show ?thesis
        by (subst bisect.simps) (simp add: Let_def)
    qed
  next
    case False
    then show ?thesis using "1.prems" by (subst bisect.simps) simp
  qed
qed

lemma length_running [simp]: "length (running x ys) = Suc (length ys)"
  by (induction ys arbitrary: x) simp_all

lemma running_not_Nil [simp]: "running x ys \<noteq> []"
  by (cases ys) simp_all

lemma last_running: "last (running x ys) = x + sum_list ys"
  by (induction ys arbitrary: x) (simp_all add: add.assoc)

lemma length_accumulate [simp]: "length (accumulate ws) = length ws"
  by (cases ws) (simp_all add: accumulate_def)

lemma last_accumulate: "ws \<noteq> [] \<Longrightarrow> last (accumulate ws) = sum_list ws"
  by (cases ws) (simp_all add: accumulate_def last_running)

lemma accumulate_Nil [simp]: "accumulate ws = [] \<longleftrightarrow> ws = []"
  by (cases ws) (simp_all add: accumulate_def)

lemma choices_member:
  assumes "choices population weights u = Inr x"
  shows "x \<in> set population"
proof -
  from assms have len: "length weights = length population" and ne: "weights \<noteq> []"
    and x: "x = population ! bisect (accumulate weights) (u * last (accumulate weights)) 0
                  (length population - 1)"
    by (auto simp: choices_def Let_def split: if_splits)
  have "bisect (accumulate weights) (u * last (accumulate weights)) 0 (length population - 1)
      \<le> length population - 1"
    by (rule bisect_le) simp
  then have "bisect (accumulate weights) (u * last (accumulate weights)) 0 (length population - 1)
      < length population"
    using len ne by (cases population) auto
  then show ?thesis unfolding x by (rule nth_mem)
qed

lemma sum_list_pos_rat:
  fixes ws :: "rat list"
  assumes "ws \<noteq> []" and "\<And>w. w \<in> set ws \<Longrightarrow> 0 < w"
  shows "0 < sum_list ws"
  using assms
proof (induction ws)
  case Nil
  then show ?case by simp
next
  case (Cons a ws)
  show ?case
  proof (cases "ws = []")
    case True
    then show ?thesis using Cons.prems(2) by simp
  next
    case False
    then have "0 < sum_list ws" using Cons by simp
    moreover have "0 < a" using Cons.prems(2) by simp
    ultimately show ?thesis by simp
  qed
qed

lemma choices_succeeds:
  assumes "length weights = length population" and "weights \<noteq> []"
    and "\<And>w. w \<in> set weights \<Longrightarrow> 0 < w"
  shows "\<exists>x. choices population weights u = Inr x"
  using assms sum_list_pos_rat [of weights]
  by (simp add: choices_def Let_def last_accumulate not_le)


section \<open>Counting occurrences\<close>

lemma counter_update_apply: "counter_update c ts k = c k + int (count_list ts k)"
  by (induction ts arbitrary: c) (simp_all add: counter_update_def)

lemma count_list_update:
  "i < length zs \<Longrightarrow>
     int (count_list (zs[i := y]) k)
       = int (count_list zs k) - (if zs ! i = k then 1 else 0) + (if y = k then 1 else 0)"
proof (induction zs arbitrary: i)
  case Nil
  then show ?case by simp
next
  case (Cons z zs)
  show ?case
  proof (cases i)
    case 0
    then show ?thesis by simp
  next
    case (Suc j)
    then have "j < length zs" using Cons.prems by simp
    from Cons.IH [OF this] Suc show ?thesis by (auto split: if_splits)
  qed
qed

lemma zip_update_right:
  "i < length ws \<Longrightarrow> zip ws (zs[i := y]) = (zip ws zs)[i := (ws ! i, y)]"
  by (simp add: update_zip)

lemma sum_list_change_one:
  fixes f f' :: "doc_id \<times> token list \<Rightarrow> int"
  assumes "distinct (map fst xs)" and "(d, ws) \<in> set xs"
    and "\<And>d' ws'. (d', ws') \<in> set xs \<Longrightarrow> d' \<noteq> d \<Longrightarrow> f' (d', ws') = f (d', ws')"
  shows "sum_list (map f' xs) = sum_list (map f xs) + f' (d, ws) - f (d, ws)"
  using assms
proof (induction xs)
  case Nil
  then show ?case by simp
next
  case (Cons x xs)
  obtain d0 ws0 where x: "x = (d0, ws0)" by (cases x)
  show ?case
  proof (cases "(d, ws) = x")
    case True
    have "fst x \<notin> set (map fst xs)" using Cons.prems(1) by simp
    then have "d \<notin> fst ` set xs" using True [symmetric] by simp
    then have "\<And>y. y \<in> set xs \<Longrightarrow> f' y = f y"
      using Cons.prems(3) by (metis image_eqI list.set_intros(2) prod.collapse)
    then have "map f' xs = map f xs" by simp
    then have "sum_list (map f' xs) = sum_list (map f xs)" by (rule arg_cong)
    with True [symmetric] show ?thesis by simp
  next
    case False
    then have mem: "(d, ws) \<in> set xs" using Cons.prems(2) by auto
    then have "d0 \<noteq> d" using Cons.prems(1) x by (auto simp: image_iff)
    then have "f' x = f x" using Cons.prems(3) [of d0 ws0] x by simp
    moreover have "sum_list (map f' xs) = sum_list (map f xs) + f' (d, ws) - f (d, ws)"
      using Cons.IH Cons.prems mem by simp
    ultimately show ?thesis by simp
  qed
qed

lemma member_le_sum_list_int:
  fixes f :: "'a \<Rightarrow> int"
  assumes "\<And>x. x \<in> set xs \<Longrightarrow> 0 \<le> f x" and "y \<in> set xs"
  shows "f y \<le> sum_list (map f xs)"
  using assms
proof (induction xs)
  case Nil
  then show ?case by simp
next
  case (Cons x xs)
  have nn: "0 \<le> sum_list (map f xs)" using Cons.prems(1) by (auto intro!: sum_list_nonneg)
  show ?case
  proof (cases "y = x")
    case True
    then show ?thesis using nn by simp
  next
    case False
    then have "f y \<le> sum_list (map f xs)" using Cons by simp
    moreover have "0 \<le> f x" using Cons.prems(1) by simp
    ultimately show ?thesis by simp
  qed
qed

lemma count_word_topics:
  assumes "length ts = length ws"
  shows "count_list (map snd (filter (\<lambda>(idx, topic). (pre @ ws) ! idx = w)
            (enumerate (length pre) ts))) k
       = count_list (zip ws ts) (w, k)"
  using assms
proof (induction ts ws arbitrary: pre rule: list_induct2)
  case Nil
  then show ?case by simp
next
  case (Cons t ts x ws)
  from Cons.IH [of "pre @ [x]"] show ?case by (simp add: nth_append)
qed

lemma count_zip_absent: "w \<notin> set ws \<Longrightarrow> count_list (zip ws zs) (w, k) = 0"
  by (auto simp: count_list_0_iff dest: set_zip_leftD)

lemma map_of_const:
  "x \<in> set xs \<Longrightarrow> map_of (map (\<lambda>y. (y, c)) xs) x = Some c"
  by (induction xs) auto

section \<open>A resampling step keeps the state consistent\<close>

lemma counter_add_move:
  "counter_add (counter_add c c0 (- 1)) new 1 k
     = c k - (if c0 = k then 1 else 0) + (if new = k then 1 else 0)"
  by (simp add: counter_add_def)

lemma resample_token_result:
  assumes "resample_token m alpha beta doc (i, word) (s, g) = Inr (s', g')"
  shows "\<exists>chs new. map_of (document_word_topics_MC s) doc = Some chs \<and> i < length chs
       \<and> chs ! i \<noteq> [] \<and> 1 \<le> new \<and> new \<le> self_K m
       \<and> document_word_topics_MC s'
           = AList.update doc (chs[i := chs ! i @ [new]]) (document_word_topics_MC s)
       \<and> (new = last (chs ! i)
             \<and> document_topic_counts s' = document_topic_counts s
             \<and> word_topic_counts s' = word_topic_counts s
             \<and> total_topic_counts s' = total_topic_counts s
           \<or> new \<noteq> last (chs ! i)
             \<and> (\<exists>cd cw. document_topic_counts s doc = Some cd \<and> word_topic_counts s word = Some cw
                  \<and> document_topic_counts s'
                      = (document_topic_counts s)(doc \<mapsto>
                          counter_add (counter_add cd (last (chs ! i)) (- 1)) new 1)
                  \<and> word_topic_counts s'
                      = (word_topic_counts s)(word \<mapsto>
                          counter_add (counter_add cw (last (chs ! i)) (- 1)) new 1)
                  \<and> total_topic_counts s'
                      = counter_add (counter_add (total_topic_counts s) (last (chs ! i)) (- 1))
                          new 1))"
proof -
  from assms obtain zeros chs densities new where
    chs: "map_of (document_word_topics_MC s) doc = Some chs" "i < length chs" "chs ! i \<noteq> []"
    and draw: "choices [1..self_K m] densities (g 0) = Inr new"
    and rest: "(let s1 = s\<lparr>document_word_topics_MC :=
                        AList.update doc (chs[i := chs ! i @ [new]]) (document_word_topics_MC s)\<rparr>;
                   g' = gen_drop 1 g
               in if new = last (chs ! i) then Inr (s1, g')
                  else (case document_topic_counts s1 doc of
                          None \<Rightarrow> Inl KeyError
                        | Some cd \<Rightarrow>
                            (case word_topic_counts s1 word of
                               None \<Rightarrow> Inl KeyError
                             | Some cw \<Rightarrow>
                                 Inr (s1\<lparr>document_topic_counts :=
                                           (document_topic_counts s1)(doc \<mapsto>
                                              counter_add (counter_add cd (last (chs ! i)) (- 1))
                                                new 1),
                                         word_topic_counts :=
                                           (word_topic_counts s1)(word \<mapsto>
                                              counter_add (counter_add cw (last (chs ! i)) (- 1))
                                                new 1),
                                         total_topic_counts :=
                                           counter_add
                                             (counter_add (total_topic_counts s1)
                                                (last (chs ! i)) (- 1))
                                             new 1\<rparr>,
                                      g')))) = Inr (s', g')"
    unfolding resample_token_def
    by (auto simp: Let_def split: sum.splits option.splits if_splits)
  from choices_member [OF draw] have new: "1 \<le> new" "new \<le> self_K m" by auto
  show ?thesis
  proof (cases "new = last (chs ! i)")
    case True
    with rest chs new show ?thesis by (auto simp: Let_def)
  next
    case False
    with rest chs new show ?thesis
      by (auto simp: Let_def split: option.splits)
  qed
qed

lemma cur_topics_update:
  assumes "map_of mc doc = Some chs"
  shows "cur_topics (AList.update doc (chs[i := chs ! i @ [new]]) mc) d
       = (if d = doc then (cur_topics mc doc)[i := new] else cur_topics mc d)"
  using assms by (simp add: cur_topics_def update_conv' map_update)

lemma count_nth_pos: "i < length xs \<Longrightarrow> 1 \<le> int (count_list xs (xs ! i))"
  using count_list_0_iff [of xs "xs ! i"] by (simp add: Suc_le_eq)

lemma consistent_lookup:
  assumes "consistent corp vocab K s" and "(doc, words) \<in> set corp"
  obtains chs cd where "map_of (document_word_topics_MC s) doc = Some chs"
    and "length chs = length words"
    and "\<And>ch. ch \<in> set chs \<Longrightarrow> ch \<noteq> [] \<and> 1 \<le> last ch \<and> last ch \<le> K"
    and "document_topic_counts s doc = Some cd"
    and "\<And>k. cd k = dcount (document_word_topics_MC s) k (doc, words)"
    and "cur_topics (document_word_topics_MC s) doc = map last chs"
proof -
  from assms obtain chs where chs: "map_of (document_word_topics_MC s) doc = Some chs"
    "length chs = length words" "\<forall>ch \<in> set chs. ch \<noteq> [] \<and> 1 \<le> last ch \<and> last ch \<le> K"
    unfolding consistent_def by fast
  from assms obtain cd where cd: "document_topic_counts s doc = Some cd"
    "\<forall>k. cd k = dcount (document_word_topics_MC s) k (doc, words)"
    unfolding consistent_def by fast
  have "cur_topics (document_word_topics_MC s) doc = map last chs"
    using chs(1) by (simp add: cur_topics_def)
  with chs cd that show thesis by blast
qed

lemma resample_token_consistent:
  assumes cons: "consistent corp vocab K s" and dist: "distinct (map fst corp)"
    and mem: "(doc, words) \<in> set corp" and i: "i < length words"
    and K: "self_K m = K"
    and step: "resample_token m alpha beta doc (i, words ! i) (s, g) = Inr (s', g')"
  shows "consistent corp vocab K s'"
proof -
  let ?mc = "document_word_topics_MC s"
  let ?mc' = "document_word_topics_MC s'"
  from consistent_lookup [OF cons mem] obtain chs cd where
    chs: "map_of ?mc doc = Some chs" "length chs = length words"
      "\<And>ch. ch \<in> set chs \<Longrightarrow> ch \<noteq> [] \<and> 1 \<le> last ch \<and> last ch \<le> K"
    and cd: "document_topic_counts s doc = Some cd" "\<And>k. cd k = dcount ?mc k (doc, words)"
    and zs: "cur_topics ?mc doc = map last chs"
    by blast
  define c0 where "c0 = last (chs ! i)"
  define zs where "zs = map last chs"
  have zs_i: "zs ! i = c0" "length zs = length words" "i < length zs"
    using i chs(2) by (simp_all add: zs_def c0_def)
  from resample_token_result [OF step] obtain chs0 new where
    r: "map_of ?mc doc = Some chs0" "1 \<le> new" "new \<le> self_K m"
       "?mc' = AList.update doc (chs0[i := chs0 ! i @ [new]]) ?mc"
    and r5: "new = last (chs0 ! i)
             \<and> document_topic_counts s' = document_topic_counts s
             \<and> word_topic_counts s' = word_topic_counts s
             \<and> total_topic_counts s' = total_topic_counts s
           \<or> new \<noteq> last (chs0 ! i)
             \<and> (\<exists>cd cw. document_topic_counts s doc = Some cd
                  \<and> word_topic_counts s (words ! i) = Some cw
                  \<and> document_topic_counts s'
                      = (document_topic_counts s)(doc \<mapsto>
                          counter_add (counter_add cd (last (chs0 ! i)) (- 1)) new 1)
                  \<and> word_topic_counts s'
                      = (word_topic_counts s)(words ! i \<mapsto>
                          counter_add (counter_add cw (last (chs0 ! i)) (- 1)) new 1)
                  \<and> total_topic_counts s'
                      = counter_add (counter_add (total_topic_counts s) (last (chs0 ! i)) (- 1))
                          new 1)"
    by blast
  have chs0: "chs0 = chs" using r(1) chs(1) by simp
  have new: "1 \<le> new" "new \<le> K" using r(2,3) K by simp_all
  have mc': "?mc' = AList.update doc (chs[i := chs ! i @ [new]]) ?mc" using r(4) chs0 by simp
  have same: "document_topic_counts s' = document_topic_counts s
             \<and> word_topic_counts s' = word_topic_counts s
             \<and> total_topic_counts s' = total_topic_counts s" if "new = c0"
    using r5 that unfolding chs0 c0_def by blast
  have moved: "\<exists>cw. word_topic_counts s (words ! i) = Some cw
                  \<and> document_topic_counts s'
                      = (document_topic_counts s)(doc \<mapsto> counter_add (counter_add cd c0 (- 1)) new 1)
                  \<and> word_topic_counts s'
                      = (word_topic_counts s)(words ! i \<mapsto>
                          counter_add (counter_add cw c0 (- 1)) new 1)
                  \<and> total_topic_counts s'
                      = counter_add (counter_add (total_topic_counts s) c0 (- 1)) new 1"
    if "new \<noteq> c0"
  proof -
    from r5 that obtain cd' cw where m: "document_topic_counts s doc = Some cd'"
        "word_topic_counts s (words ! i) = Some cw"
        "document_topic_counts s'
           = (document_topic_counts s)(doc \<mapsto> counter_add (counter_add cd' c0 (- 1)) new 1)"
        "word_topic_counts s'
           = (word_topic_counts s)(words ! i \<mapsto> counter_add (counter_add cw c0 (- 1)) new 1)"
        "total_topic_counts s'
           = counter_add (counter_add (total_topic_counts s) c0 (- 1)) new 1"
      unfolding chs0 c0_def by blast
    have "cd' = cd" using m(1) cd(1) by simp
    with m show ?thesis by blast
  qed
  have cur': "cur_topics ?mc' d = (if d = doc then zs[i := new] else cur_topics ?mc d)" for d
    unfolding mc' using cur_topics_update [OF chs(1)] zs by (simp add: zs_def)
  have only: "ws = words" if "(doc, ws) \<in> set corp" for ws
    using dist mem that by (meson eq_key_imp_eq_value)
  have dc_doc: "dcount ?mc' k (doc, words)
      = dcount ?mc k (doc, words) - (if c0 = k then 1 else 0) + (if new = k then 1 else 0)" for k
    using count_list_update [OF zs_i(3), of new k] zs zs_i(1)
    by (simp add: dcount_def cur' zs_def)
  have dc_other: "dcount ?mc' k (d, ws) = dcount ?mc k (d, ws)" if "d \<noteq> doc" for d ws k
    using that by (simp add: dcount_def cur')
  have zip_i: "i < length (zip words zs)" "zip words zs ! i = (words ! i, c0)"
    using i zs_i by simp_all
  have wc_doc: "wcount ?mc' w k (doc, words)
      = wcount ?mc w k (doc, words) - (if words ! i = w \<and> c0 = k then 1 else 0)
          + (if words ! i = w \<and> new = k then 1 else 0)" for w k
    using count_list_update [OF zip_i(1), of "(words ! i, new)" "(w, k)"] zip_i(2) zs
    by (simp add: wcount_def cur' zs_def zip_update_right [OF i])
  have wc_other: "wcount ?mc' w k (d, ws) = wcount ?mc w k (d, ws)" if "d \<noteq> doc" for d ws w k
    using that by (simp add: wcount_def cur')
  have sum_d: "sum_list (map (dcount ?mc' k) corp)
      = sum_list (map (dcount ?mc k) corp) - (if c0 = k then 1 else 0)
          + (if new = k then 1 else 0)" for k
    using sum_list_change_one [OF dist mem, of "dcount ?mc' k" "dcount ?mc k"] dc_other dc_doc [of k]
    by simp
  have sum_w: "sum_list (map (wcount ?mc' w k) corp)
      = sum_list (map (wcount ?mc w k) corp) - (if words ! i = w \<and> c0 = k then 1 else 0)
          + (if words ! i = w \<and> new = k then 1 else 0)" for w k
    using sum_list_change_one [OF dist mem, of "wcount ?mc' w k" "wcount ?mc w k"] wc_other
      wc_doc [of w k]
    by simp
  have keys: "map fst ?mc' = map fst corp"
  proof -
    have keys0: "map fst ?mc = map fst corp" using cons unfolding consistent_def by fast
    have "doc \<in> set (map fst corp)" using mem by force
    then show ?thesis using keys0 by (simp add: mc' update_keys)
  qed
  have chains: "\<exists>chs'. map_of ?mc' d = Some chs' \<and> length chs' = length ws
           \<and> (\<forall>ch \<in> set chs'. ch \<noteq> [] \<and> 1 \<le> last ch \<and> last ch \<le> K)"
    if dw: "(d, ws) \<in> set corp" for d ws
  proof (cases "d = doc")
    case True
    then have ws: "ws = words" using only [of ws] dw by blast
    have look: "map_of ?mc' doc = Some (chs[i := chs ! i @ [new]])"
      unfolding mc' by (simp add: update_conv')
    have "ch \<noteq> [] \<and> 1 \<le> last ch \<and> last ch \<le> K"
      if "ch \<in> set (chs[i := chs ! i @ [new]])" for ch
    proof -
      from that set_update_subset_insert [of chs i "chs ! i @ [new]"]
      have "ch = chs ! i @ [new] \<or> ch \<in> set chs" by blast
      then show ?thesis using chs(3) new by fastforce
    qed
    then show ?thesis unfolding True ws using look chs(2) by simp
  next
    case False
    from cons dw obtain chs' where c':
      "map_of ?mc d = Some chs'" "length chs' = length ws"
      "\<forall>ch \<in> set chs'. ch \<noteq> [] \<and> 1 \<le> last ch \<and> last ch \<le> K"
      unfolding consistent_def by fast
    have "map_of ?mc' d = Some chs'" unfolding mc' using False c'(1) by (simp add: update_conv')
    then show ?thesis using c'(2,3) by simp
  qed
  have docs: "\<exists>cd'. document_topic_counts s' d = Some cd'
           \<and> (\<forall>k. cd' k = dcount ?mc' k (d, ws))"
    if dw: "(d, ws) \<in> set corp" for d ws
  proof (cases "d = doc")
    case True
    then have ws: "ws = words" using only [of ws] dw by blast
    show ?thesis
    proof (cases "new = c0")
      case eq: True
      from same [OF eq] show ?thesis using True ws cd dc_doc eq by simp
    next
      case ne: False
      from moved [OF ne] obtain cw where
        "document_topic_counts s'
           = (document_topic_counts s)(doc \<mapsto> counter_add (counter_add cd c0 (- 1)) new 1)"
        by blast
      then show ?thesis using True ws cd(2) dc_doc by (simp add: counter_add_move)
    qed
  next
    case False
    from cons dw obtain cd' where
      "document_topic_counts s d = Some cd'" "\<forall>k. cd' k = dcount ?mc k (d, ws)"
      unfolding consistent_def by fast
    moreover have "document_topic_counts s' d = document_topic_counts s d"
      using same moved False by (cases "new = c0") auto
    ultimately show ?thesis using dc_other [OF False] by simp
  qed
  have words: "\<exists>cw'. word_topic_counts s' w = Some cw'
           \<and> (\<forall>k. cw' k = sum_list (map (wcount ?mc' w k) corp))"
    if w: "w \<in> set vocab" for w
  proof -
    from cons w obtain cw where cw: "word_topic_counts s w = Some cw"
      "\<And>k. cw k = sum_list (map (wcount ?mc w k) corp)"
      unfolding consistent_def by fast
    show ?thesis
    proof (cases "new = c0")
      case eq: True
      from same [OF eq] show ?thesis using cw sum_w eq by simp
    next
      case ne: False
      from moved [OF ne] obtain cw0 where cw0: "word_topic_counts s (words ! i) = Some cw0"
        "word_topic_counts s'
           = (word_topic_counts s)(words ! i \<mapsto> counter_add (counter_add cw0 c0 (- 1)) new 1)"
        by blast
      show ?thesis
      proof (cases "w = words ! i")
        case True
        then have "cw0 = cw" using cw0(1) cw(1) by simp
        then show ?thesis using True cw0(2) cw(2) by (simp add: counter_add_move sum_w)
      next
        case False
        then show ?thesis using cw0(2) cw by (simp add: sum_w)
      qed
    qed
  qed
  have total: "total_topic_counts s' k = sum_list (map (dcount ?mc' k) corp)" for k
  proof -
    have "total_topic_counts s k = sum_list (map (dcount ?mc k) corp)"
      using cons unfolding consistent_def by fast
    then show ?thesis
      using same moved by (cases "new = c0") (auto simp: counter_add_move sum_d)
  qed
  show ?thesis
    unfolding consistent_def
  proof (intro conjI ballI allI)
    show "map fst ?mc' = map fst corp" by (rule keys)
  next
    fix x assume x: "x \<in> set corp"
    obtain d ws where xd: "x = (d, ws)" by (cases x)
    show "case x of (doc, words) \<Rightarrow>
        \<exists>chs. map_of ?mc' doc = Some chs \<and> length chs = length words
           \<and> (\<forall>ch \<in> set chs. ch \<noteq> [] \<and> 1 \<le> last ch \<and> last ch \<le> K)"
      using chains [of d ws] x unfolding xd by simp
  next
    fix x assume x: "x \<in> set corp"
    obtain d ws where xd: "x = (d, ws)" by (cases x)
    show "case x of (doc, words) \<Rightarrow>
        \<exists>cd. document_topic_counts s' doc = Some cd
           \<and> (\<forall>k. cd k = dcount ?mc' k (doc, words))"
      using docs [of d ws] x unfolding xd by simp
  next
    fix w assume "w \<in> set vocab"
    then show "\<exists>cw. word_topic_counts s' w = Some cw
           \<and> (\<forall>k. cw k = sum_list (map (wcount ?mc' w k) corp))"
      by (rule words)
  next
    fix k show "total_topic_counts s' k = sum_list (map (dcount ?mc' k) corp)" by (rule total)
  qed
qed

section \<open>The initializer establishes consistency\<close>

lemma randint_range:
  assumes "randint 1 (K + 1) n g = Inr (topics, g')"
  shows "length topics = n" and "\<And>t. t \<in> set topics \<Longrightarrow> 1 \<le> t \<and> t \<le> K"
proof -
  show "length topics = n"
    using assms by (auto simp: randint_def gen_take_def split: if_splits)
  fix t assume t: "t \<in> set topics"
  then have n: "n \<noteq> 0" and K: "0 < K"
    using assms by (auto simp: randint_def split: if_splits)
  from assms n K t obtain r :: nat where "t = 1 + int (r mod nat K)"
    by (auto simp: randint_def split: if_splits)
  moreover have "r mod nat K < nat K" using K by simp
  ultimately show "1 \<le> t \<and> t \<le> K" by linarith
qed

lemma randint_succeeds:
  "1 \<le> K \<Longrightarrow> \<exists>topics g'. randint 1 (K + 1) n g = Inr (topics, g')"
  by (simp add: randint_def)

lemma count_word_topics0:
  "length topics = length words \<Longrightarrow>
     count_list (word_topics words topics w) k = count_list (zip words topics) (w, k)"
  using count_word_topics [of topics words "[]" w k] by (simp add: word_topics_def)

lemma update_words_loop:
  assumes "\<And>w. w \<in> set us \<Longrightarrow> \<exists>c. word_topic_counts s w = Some c" and "distinct us"
  shows "\<exists>s'. for_each (update_word words topics) us s = Inr s'
       \<and> document_word_topics_MC s' = document_word_topics_MC s
       \<and> document_topic_counts s' = document_topic_counts s
       \<and> total_topic_counts s' = total_topic_counts s
       \<and> (\<forall>w. word_topic_counts s' w
              = (if w \<in> set us
                 then map_option (\<lambda>c. counter_update c (word_topics words topics w))
                        (word_topic_counts s w)
                 else word_topic_counts s w))"
  using assms
proof (induction us arbitrary: s)
  case Nil
  then show ?case by simp
next
  case (Cons u us)
  from Cons.prems(1) [of u] obtain c where c: "word_topic_counts s u = Some c" by auto
  define s1 where "s1 = s\<lparr>word_topic_counts :=
      (word_topic_counts s)(u \<mapsto> counter_update c (word_topics words topics u))\<rparr>"
  have step: "update_word words topics u s = Inr s1"
    using c by (simp add: update_word_def s1_def word_topics_def)
  have "\<And>w. w \<in> set us \<Longrightarrow> \<exists>c. word_topic_counts s1 w = Some c"
    using Cons.prems(1) by (auto simp: s1_def)
  from Cons.IH [OF this] Cons.prems(2)
  obtain s' where s': "for_each (update_word words topics) us s1 = Inr s'"
    "document_word_topics_MC s' = document_word_topics_MC s1"
    "document_topic_counts s' = document_topic_counts s1"
    "total_topic_counts s' = total_topic_counts s1"
    "\<And>w. word_topic_counts s' w
              = (if w \<in> set us
                 then map_option (\<lambda>c. counter_update c (word_topics words topics w))
                        (word_topic_counts s1 w)
                 else word_topic_counts s1 w)"
    by auto
  have "word_topic_counts s' w
      = (if w \<in> set (u # us)
         then map_option (\<lambda>c. counter_update c (word_topics words topics w))
                (word_topic_counts s w)
         else word_topic_counts s w)" for w
    using s'(5) [of w] Cons.prems(2) c by (auto simp: s1_def)
  then show ?case using step s'(1-4) by (simp add: s1_def)
qed

lemma cur_topics_fresh:
  "cur_topics (AList.update doc (map (\<lambda>topic. [topic]) topics) mc) d
     = (if d = doc then topics else cur_topics mc d)"
  by (simp add: cur_topics_def update_conv' comp_def)

lemma init_doc_consistent:
  assumes inv: "consistent pre vocab K s"
    and fresh: "doc \<notin> fst ` set pre"
    and zero: "document_topic_counts s doc = Some (\<lambda>_. 0)"
    and voc: "set words \<subseteq> set vocab"
    and K: "self_K m = K"
    and rnd: "randint 1 (K + 1) (length words) g = Inr (topics, g')"
  shows "\<exists>s'. init_doc m (doc, words) (s, g) = Inr (s', g')
       \<and> consistent (pre @ [(doc, words)]) vocab K s'
       \<and> (\<forall>d. d \<noteq> doc \<longrightarrow> document_topic_counts s' d = document_topic_counts s d)"
proof -
  let ?mc = "document_word_topics_MC s"
  define mc' where "mc' = AList.update doc (map (\<lambda>topic. [topic]) topics) ?mc"
  define s3 where "s3 = s\<lparr>document_word_topics_MC := mc',
      document_topic_counts := (document_topic_counts s)(doc \<mapsto> counter_update (\<lambda>_. 0) topics),
      total_topic_counts := counter_update (total_topic_counts s) topics\<rparr>"
  note rr = randint_range [OF rnd]
  have wtc: "\<And>w. w \<in> set vocab \<Longrightarrow> \<exists>c. word_topic_counts s w = Some c"
    using inv unfolding consistent_def by fast
  have "\<And>w. w \<in> set (remdups words) \<Longrightarrow> \<exists>c. word_topic_counts s3 w = Some c"
    using wtc voc by (auto simp: s3_def)
  from update_words_loop [OF this, of "remdups words" words topics]
  obtain s' where s': "for_each (update_word words topics) (remdups words) s3 = Inr s'"
    "document_word_topics_MC s' = mc'"
    "document_topic_counts s' = (document_topic_counts s)(doc \<mapsto> counter_update (\<lambda>_. 0) topics)"
    "total_topic_counts s' = counter_update (total_topic_counts s) topics"
    "\<And>w. word_topic_counts s' w
              = (if w \<in> set words
                 then map_option (\<lambda>c. counter_update c (word_topics words topics w))
                        (word_topic_counts s w)
                 else word_topic_counts s w)"
    by (auto simp: s3_def)
  have run: "init_doc m (doc, words) (s, g) = Inr (s', g')"
    using rnd zero s'(1) by (simp add: init_doc_def K Let_def s3_def mc'_def)
  have keys0: "map fst ?mc = map fst pre" using inv unfolding consistent_def by fast
  have keys: "map fst mc' = map fst (pre @ [(doc, words)])"
    using fresh keys0 by (simp add: mc'_def update_keys)
  have cur: "cur_topics mc' d = (if d = doc then topics else cur_topics ?mc d)" for d
    by (simp add: mc'_def cur_topics_fresh)
  have look: "map_of mc' d = (if d = doc then Some (map (\<lambda>topic. [topic]) topics) else map_of ?mc d)"
    for d
    by (simp add: mc'_def update_conv')
  have old: "d \<noteq> doc" if "(d, ws) \<in> set pre" for d ws
    using that fresh by force
  have dc_old: "map (dcount mc' k) pre = map (dcount ?mc k) pre" for k
    using old by (auto simp: dcount_def cur)
  have wc_old: "map (wcount mc' w k) pre = map (wcount ?mc w k) pre" for w k
    using old by (auto simp: wcount_def cur)
  have dc_new: "dcount mc' k (doc, words) = int (count_list topics k)" for k
    by (simp add: dcount_def cur)
  have wc_new: "wcount mc' w k (doc, words) = int (count_list (zip words topics) (w, k))" for w k
    by (simp add: wcount_def cur)
  have chains: "\<exists>chs. map_of mc' d = Some chs \<and> length chs = length ws
           \<and> (\<forall>ch \<in> set chs. ch \<noteq> [] \<and> 1 \<le> last ch \<and> last ch \<le> K)"
    if dw: "(d, ws) \<in> set (pre @ [(doc, words)])" for d ws
  proof (cases "d = doc")
    case True
    then have "ws = words" using dw fresh by force
    then show ?thesis using True rr by (auto simp: look)
  next
    case False
    then have "(d, ws) \<in> set pre" using dw by simp
    with inv obtain chs where "map_of ?mc d = Some chs" "length chs = length ws"
      "\<forall>ch \<in> set chs. ch \<noteq> [] \<and> 1 \<le> last ch \<and> last ch \<le> K"
      unfolding consistent_def by fast
    then show ?thesis using False by (simp add: look)
  qed
  have docs: "\<exists>cd. document_topic_counts s' d = Some cd \<and> (\<forall>k. cd k = dcount mc' k (d, ws))"
    if dw: "(d, ws) \<in> set (pre @ [(doc, words)])" for d ws
  proof (cases "d = doc")
    case True
    then have "ws = words" using dw fresh by force
    then show ?thesis using True by (simp add: s'(3) dc_new counter_update_apply)
  next
    case False
    then have mem: "(d, ws) \<in> set pre" using dw by simp
    with inv obtain cd where "document_topic_counts s d = Some cd"
      "\<forall>k. cd k = dcount ?mc k (d, ws)"
      unfolding consistent_def by fast
    then show ?thesis using False by (simp add: s'(3) dcount_def cur)
  qed
  have words: "\<exists>cw. word_topic_counts s' w = Some cw
           \<and> (\<forall>k. cw k = sum_list (map (wcount mc' w k) (pre @ [(doc, words)])))"
    if w: "w \<in> set vocab" for w
  proof -
    from inv w obtain cw where cw: "word_topic_counts s w = Some cw"
      "\<forall>k. cw k = sum_list (map (wcount ?mc w k) pre)"
      unfolding consistent_def by fast
    show ?thesis
    proof (cases "w \<in> set words")
      case True
      then show ?thesis
        using cw rr(1) by (simp add: s'(5) counter_update_apply count_word_topics0 wc_old wc_new)
    next
      case False
      then show ?thesis
        using cw by (simp add: s'(5) wc_old wc_new count_zip_absent)
    qed
  qed
  have total: "total_topic_counts s' k = sum_list (map (dcount mc' k) (pre @ [(doc, words)]))" for k
  proof -
    have "total_topic_counts s k = sum_list (map (dcount ?mc k) pre)"
      using inv unfolding consistent_def by fast
    then show ?thesis by (simp add: s'(4) counter_update_apply dc_old dc_new)
  qed
  have "consistent (pre @ [(doc, words)]) vocab K s'"
    unfolding consistent_def s'(2)
  proof (intro conjI ballI allI)
    show "map fst mc' = map fst (pre @ [(doc, words)])" by (rule keys)
  next
    fix x assume x: "x \<in> set (pre @ [(doc, words)])"
    obtain d ws where xd: "x = (d, ws)" by (cases x)
    show "case x of (doc, words) \<Rightarrow>
        \<exists>chs. map_of mc' doc = Some chs \<and> length chs = length words
           \<and> (\<forall>ch \<in> set chs. ch \<noteq> [] \<and> 1 \<le> last ch \<and> last ch \<le> K)"
      using chains [of d ws] x unfolding xd by simp
  next
    fix x assume x: "x \<in> set (pre @ [(doc, words)])"
    obtain d ws where xd: "x = (d, ws)" by (cases x)
    show "case x of (doc, words) \<Rightarrow>
        \<exists>cd. document_topic_counts s' doc = Some cd \<and> (\<forall>k. cd k = dcount mc' k (doc, words))"
      using docs [of d ws] x unfolding xd by simp
  next
    fix w assume "w \<in> set vocab"
    then show "\<exists>cw. word_topic_counts s' w = Some cw
           \<and> (\<forall>k. cw k = sum_list (map (wcount mc' w k) (pre @ [(doc, words)])))"
      by (rule words)
  next
    fix k
    show "total_topic_counts s' k = sum_list (map (dcount mc' k) (pre @ [(doc, words)]))"
      by (rule total)
  qed
  moreover have "\<forall>d. d \<noteq> doc \<longrightarrow> document_topic_counts s' d = document_topic_counts s d"
    by (simp add: s'(3))
  ultimately show ?thesis using run by blast
qed

lemma init_doc_fails:
  "randint 1 (self_K m + 1) (length words) g = Inl e \<Longrightarrow> init_doc m (doc, words) (s, g) = Inl e"
  by (simp add: init_doc_def)

lemma init_inv_empty:
  "init_inv (iden_to_tokens m) (vocabulary m) K [] (empty_state m, g)"
proof -
  have "map_of (map (\<lambda>title. (title, \<lambda>_. 0::int)) (map fst (iden_to_tokens m))) d = Some (\<lambda>_. 0)"
    if "d \<in> set (map fst (iden_to_tokens m))" for d
    using that by (rule map_of_const)
  moreover have "map_of (map (\<lambda>word. (word, \<lambda>_. 0::int)) (vocabulary m)) w = Some (\<lambda>_. 0)"
    if "w \<in> set (vocabulary m)" for w
    using that by (rule map_of_const)
  ultimately show ?thesis
    unfolding init_inv_def consistent_def empty_state_def by auto
qed

lemma init_inv_step:
  assumes split: "iden_to_tokens m = pre @ (doc, words) # post"
    and dist: "distinct (map fst (iden_to_tokens m))"
    and voc: "set (concat (map snd (iden_to_tokens m))) \<subseteq> set (vocabulary m)"
    and inv: "init_inv (iden_to_tokens m) (vocabulary m) (self_K m) pre (s, g)"
    and rnd: "randint 1 (self_K m + 1) (length words) g = Inr (topics, g')"
  shows "\<exists>s'. init_doc m (doc, words) (s, g) = Inr (s', g')
       \<and> init_inv (iden_to_tokens m) (vocabulary m) (self_K m) (pre @ [(doc, words)]) (s', g')"
proof -
  have fresh: "doc \<notin> fst ` set pre" using dist unfolding split by auto
  have "doc \<in> set (map fst (iden_to_tokens m))" unfolding split by simp
  moreover have "doc \<notin> set (map fst pre)" using fresh by simp
  ultimately have zero: "document_topic_counts s doc = Some (\<lambda>_. 0)"
    using inv unfolding init_inv_def by (metis fst_conv)
  have w: "set words \<subseteq> set (vocabulary m)" using voc unfolding split by auto
  have cons: "consistent pre (vocabulary m) (self_K m) s" using inv by (simp add: init_inv_def)
  from init_doc_consistent [OF cons fresh zero w refl rnd]
  obtain s' where s': "init_doc m (doc, words) (s, g) = Inr (s', g')"
    "consistent (pre @ [(doc, words)]) (vocabulary m) (self_K m) s'"
    "\<And>d. d \<noteq> doc \<Longrightarrow> document_topic_counts s' d = document_topic_counts s d"
    by blast
  have "document_topic_counts s' d = Some (\<lambda>_. 0)"
    if "d \<in> set (map fst (iden_to_tokens m))" "d \<notin> set (map fst (pre @ [(doc, words)]))" for d
  proof -
    from that(2) have d: "d \<noteq> doc" "d \<notin> set (map fst pre)" by auto
    have "document_topic_counts s d = Some (\<lambda>_. 0)"
      using inv that(1) d(2) unfolding init_inv_def by (metis fst_conv)
    then show ?thesis using s'(3) d(1) by simp
  qed
  then show ?thesis using s'(1,2) unfolding init_inv_def by (metis fst_conv)
qed

lemma initialize_topics_consistent:
  assumes run: "initialize_topics m g = Inr (s, g')"
    and dist: "distinct (map fst (iden_to_tokens m))"
    and voc: "set (concat (map snd (iden_to_tokens m))) \<subseteq> set (vocabulary m)"
  shows "consistent (iden_to_tokens m) (vocabulary m) (self_K m) s"
proof -
  have "init_inv (iden_to_tokens m) (vocabulary m) (self_K m) (iden_to_tokens m) (s, g')"
  proof (rule for_each_prefix_inv [where I = "init_inv (iden_to_tokens m) (vocabulary m) (self_K m)",
        OF run [unfolded initialize_topics_def]])
    show "init_inv (iden_to_tokens m) (vocabulary m) (self_K m) [] (empty_state m, g)"
      by (rule init_inv_empty)
  next
    fix pre x post t t'
    assume split: "iden_to_tokens m = pre @ x # post"
      and inv: "init_inv (iden_to_tokens m) (vocabulary m) (self_K m) pre t"
      and step: "init_doc m x t = Inr t'"
    obtain doc words where x: "x = (doc, words)" by (cases x)
    obtain s1 g1 where t: "t = (s1, g1)" by (cases t)
    show "init_inv (iden_to_tokens m) (vocabulary m) (self_K m) (pre @ [x]) t'"
    proof (cases "randint 1 (self_K m + 1) (length words) g1")
      case (Inl e)
      from init_doc_fails [OF this] step show ?thesis by (simp add: x t)
    next
      case (Inr r)
      obtain topics g2 where r: "r = (topics, g2)" by (cases r)
      from init_inv_step [OF split [unfolded x] dist voc inv [unfolded t] Inr [unfolded r]] step
      show ?thesis by (auto simp: x t)
    qed
  qed
  then show ?thesis by (simp add: init_inv_def)
qed

lemma initialize_topics_succeeds:
  assumes K: "1 \<le> self_K m"
    and dist: "distinct (map fst (iden_to_tokens m))"
    and voc: "set (concat (map snd (iden_to_tokens m))) \<subseteq> set (vocabulary m)"
  shows "\<exists>s g'. initialize_topics m g = Inr (s, g')"
proof -
  have "\<exists>st. for_each (init_doc m) (iden_to_tokens m) (empty_state m, g) = Inr st
          \<and> init_inv (iden_to_tokens m) (vocabulary m) (self_K m) (iden_to_tokens m) st"
  proof (rule for_each_prefix [where I = "init_inv (iden_to_tokens m) (vocabulary m) (self_K m)"])
    show "init_inv (iden_to_tokens m) (vocabulary m) (self_K m) [] (empty_state m, g)"
      by (rule init_inv_empty)
  next
    fix pre x post t
    assume split: "iden_to_tokens m = pre @ x # post"
      and inv: "init_inv (iden_to_tokens m) (vocabulary m) (self_K m) pre t"
    obtain doc words where x: "x = (doc, words)" by (cases x)
    obtain s1 g1 where t: "t = (s1, g1)" by (cases t)
    from randint_succeeds [OF K] obtain topics g2 where
      "randint 1 (self_K m + 1) (length words) g1 = Inr (topics, g2)" by blast
    from init_inv_step [OF split [unfolded x] dist voc inv [unfolded t] this]
    show "\<exists>t'. init_doc m x t = Inr t'
            \<and> init_inv (iden_to_tokens m) (vocabulary m) (self_K m) (pre @ [x]) t'"
      by (auto simp: x t)
  qed
  then show ?thesis by (auto simp: initialize_topics_def)
qed

lemma run_consistent:
  assumes run: "for_each (resample_occ m alpha beta) occs (s, g) = Inr (s', g')"
    and cons: "consistent (iden_to_tokens m) vocab (self_K m) s"
    and dist: "distinct (map fst (iden_to_tokens m))"
    and valid: "\<And>doc i word. (doc, i, word) \<in> set occs \<Longrightarrow>
        \<exists>words. (doc, words) \<in> set (iden_to_tokens m) \<and> i < length words \<and> word = words ! i"
  shows "consistent (iden_to_tokens m) vocab (self_K m) s'"
proof -
  have "consistent (iden_to_tokens m) vocab (self_K m) (fst (s', g'))"
  proof (rule for_each_invariant [OF run, where I = "\<lambda>st. consistent (iden_to_tokens m) vocab (self_K m) (fst st)"])
    show "consistent (iden_to_tokens m) vocab (self_K m) (fst (s, g))" using cons by simp
  next
    fix x t t'
    assume x: "x \<in> set occs" and inv: "consistent (iden_to_tokens m) vocab (self_K m) (fst t)"
      and step: "resample_occ m alpha beta x t = Inr t'"
    obtain doc i word where xd: "x = (doc, i, word)" by (cases x)
    obtain s1 g1 where t: "t = (s1, g1)" by (cases t)
    obtain s2 g2 where t': "t' = (s2, g2)" by (cases t')
    from valid x xd obtain words where w: "(doc, words) \<in> set (iden_to_tokens m)"
      "i < length words" "word = words ! i" by blast
    from step have "resample_token m alpha beta doc (i, words ! i) (s1, g1) = Inr (s2, g2)"
      by (simp add: xd t t' resample_occ_def w(3))
    from resample_token_consistent [OF _ dist w(1,2) refl this] inv
    show "consistent (iden_to_tokens m) vocab (self_K m) (fst t')" by (simp add: t t')
  qed
  then show ?thesis by simp
qed

section \<open>The count invariants\<close>

lemma sum_list_map_cong:
  "(\<And>x. x \<in> set xs \<Longrightarrow> f x = g x) \<Longrightarrow> sum_list (map f xs) = sum_list (map g xs)"
  by (induction xs) simp_all

lemma sum_over_sum_list:
  fixes f :: "'k \<Rightarrow> 'x \<Rightarrow> int"
  shows "(\<Sum>k \<in> A. sum_list (map (f k) xs)) = sum_list (map (\<lambda>x. \<Sum>k \<in> A. f k x) xs)"
  by (induction xs) (simp_all add: sum.distrib)

lemma sum_count_topics:
  fixes zs :: "int list"
  assumes "set zs \<subseteq> {1..K}"
  shows "(\<Sum>k = 1..K. int (count_list zs k)) = int (length zs)"
proof -
  have "sum (count_list zs) {1..K} = length zs" by (rule sum_count_set [OF assms]) simp
  then have "int (sum (count_list zs) {1..K}) = int (length zs)" by simp
  then show ?thesis by simp
qed

lemma sum_count_pairs_topics:
  fixes zs :: "int list"
  assumes "length ws = length zs" and "set zs \<subseteq> {1..K}"
  shows "(\<Sum>k = 1..K. int (count_list (zip ws zs) (w, k))) = int (count_list ws w)"
  using assms
proof (induction ws zs rule: list_induct2)
  case Nil
  then show ?case by simp
next
  case (Cons x ws z zs)
  have z: "z \<in> {1..K}" using Cons.prems by simp
  have "(\<Sum>k = 1..K. int (count_list (zip (x # ws) (z # zs)) (w, k)))
      = (\<Sum>k = 1..K. int (count_list (zip ws zs) (w, k)) + (if x = w \<and> z = k then 1 else 0))"
    by (rule sum.cong) auto
  also have "\<dots> = (\<Sum>k = 1..K. int (count_list (zip ws zs) (w, k)))
      + (\<Sum>k = 1..K. if x = w \<and> z = k then 1 else 0)"
    by (simp add: sum.distrib)
  also have "(\<Sum>k = 1..K. if x = w \<and> z = k then 1 else 0) = (if x = w then 1 else (0::int))"
    using z by (cases "x = w") (simp_all add: sum.delta')
  finally show ?case using Cons by auto
qed

lemma sum_count_pairs_words:
  assumes "length ws = length zs" and "set ws \<subseteq> V" and "finite V"
  shows "(\<Sum>w \<in> V. int (count_list (zip ws zs) (w, k))) = int (count_list zs k)"
  using assms
proof (induction ws zs rule: list_induct2)
  case Nil
  then show ?case by simp
next
  case (Cons x ws z zs)
  have x: "x \<in> V" using Cons.prems by simp
  have "(\<Sum>w \<in> V. int (count_list (zip (x # ws) (z # zs)) (w, k)))
      = (\<Sum>w \<in> V. int (count_list (zip ws zs) (w, k)) + (if x = w \<and> z = k then 1 else 0))"
    by (rule sum.cong) auto
  also have "\<dots> = (\<Sum>w \<in> V. int (count_list (zip ws zs) (w, k)))
      + (\<Sum>w \<in> V. if x = w \<and> z = k then 1 else 0)"
    by (simp add: sum.distrib)
  also have "(\<Sum>w \<in> V. if x = w \<and> z = k then 1 else 0) = (if z = k then 1 else (0::int))"
    using x Cons.prems(2) by (cases "z = k") (simp_all add: sum.delta')
  finally show ?case using Cons by auto
qed

lemma count_list_concat:
  "int (count_list (concat xss) w) = sum_list (map (\<lambda>xs. int (count_list xs w)) xss)"
  by (induction xss) simp_all

lemma length_concat_int:
  "int (length (concat xss)) = sum_list (map (\<lambda>xs. int (length xs)) xss)"
  by (induction xss) simp_all

lemma consistent_topics:
  assumes "consistent corp vocab K s" and "(doc, words) \<in> set corp"
  shows "length (cur_topics (document_word_topics_MC s) doc) = length words"
    and "set (cur_topics (document_word_topics_MC s) doc) \<subseteq> {1..K}"
proof -
  from assms obtain chs where chs: "map_of (document_word_topics_MC s) doc = Some chs"
    "length chs = length words" "\<forall>ch \<in> set chs. ch \<noteq> [] \<and> 1 \<le> last ch \<and> last ch \<le> K"
    unfolding consistent_def by fast
  show "length (cur_topics (document_word_topics_MC s) doc) = length words"
    using chs by (simp add: cur_topics_def)
  show "set (cur_topics (document_word_topics_MC s) doc) \<subseteq> {1..K}"
    using chs by (auto simp: cur_topics_def)
qed

lemma consistent_sums:
  assumes cons: "consistent corp vocab K s" and dv: "distinct vocab"
    and voc: "set (concat (map snd corp)) \<subseteq> set vocab"
  shows "\<forall>(doc, words) \<in> set corp.
           \<exists>cd. document_topic_counts s doc = Some cd \<and> (\<Sum>k = 1..K. cd k) = int (length words)"
    and "\<forall>w \<in> set vocab.
           \<exists>cw. word_topic_counts s w = Some cw
              \<and> (\<Sum>k = 1..K. cw k) = int (count_list (concat (map snd corp)) w)"
    and "\<forall>k. (\<Sum>w\<leftarrow>vocab. case word_topic_counts s w of None \<Rightarrow> 0 | Some cw \<Rightarrow> cw k)
              = total_topic_counts s k"
    and "(\<Sum>k = 1..K. total_topic_counts s k) = int (length (concat (map snd corp)))"
proof -
  let ?mc = "document_word_topics_MC s"
  have d_sum: "(\<Sum>k = 1..K. dcount ?mc k x) = int (length (snd x))" if "x \<in> set corp" for x
  proof -
    obtain d ws where x: "x = (d, ws)" by (cases x)
    from consistent_topics [OF cons that [unfolded x]] show ?thesis
      by (simp add: x dcount_def sum_count_topics)
  qed
  have w_sum: "(\<Sum>k = 1..K. wcount ?mc w k x) = int (count_list (snd x) w)"
    if "x \<in> set corp" for x w
  proof -
    obtain d ws where x: "x = (d, ws)" by (cases x)
    from consistent_topics [OF cons that [unfolded x]] show ?thesis
      by (simp add: x wcount_def sum_count_pairs_topics)
  qed
  have v_sum: "(\<Sum>w \<in> set vocab. wcount ?mc w k x) = dcount ?mc k x" if "x \<in> set corp" for x k
  proof -
    obtain d ws where x: "x = (d, ws)" by (cases x)
    have "set ws \<subseteq> set vocab" using voc that x by force
    with consistent_topics(1) [OF cons that [unfolded x]] show ?thesis
      by (simp add: x wcount_def dcount_def sum_count_pairs_words)
  qed
  show "\<forall>(doc, words) \<in> set corp.
           \<exists>cd. document_topic_counts s doc = Some cd \<and> (\<Sum>k = 1..K. cd k) = int (length words)"
  proof (intro ballI)
    fix x assume x: "x \<in> set corp"
    obtain d ws where xd: "x = (d, ws)" by (cases x)
    from cons x obtain cd where cd: "document_topic_counts s d = Some cd"
      "\<forall>k. cd k = dcount ?mc k (d, ws)"
      unfolding consistent_def xd by fast
    have "(\<Sum>k = 1..K. cd k) = int (length ws)" using d_sum [OF x] cd(2) by (simp add: xd)
    then show "case x of (doc, words) \<Rightarrow>
        \<exists>cd. document_topic_counts s doc = Some cd \<and> (\<Sum>k = 1..K. cd k) = int (length words)"
      using cd(1) by (simp add: xd)
  qed
  have w_tot: "(\<Sum>k = 1..K. sum_list (map (wcount ?mc w k) corp))
      = int (count_list (concat (map snd corp)) w)" for w
  proof -
    have "(\<Sum>k = 1..K. sum_list (map (wcount ?mc w k) corp))
        = sum_list (map (\<lambda>x. \<Sum>k = 1..K. wcount ?mc w k x) corp)"
      by (rule sum_over_sum_list)
    also have "\<dots> = sum_list (map (\<lambda>x. int (count_list (snd x) w)) corp)"
      by (rule sum_list_map_cong) (rule w_sum)
    also have "\<dots> = int (count_list (concat (map snd corp)) w)"
      by (simp add: count_list_concat comp_def)
    finally show ?thesis .
  qed
  show "\<forall>w \<in> set vocab.
           \<exists>cw. word_topic_counts s w = Some cw
              \<and> (\<Sum>k = 1..K. cw k) = int (count_list (concat (map snd corp)) w)"
  proof
    fix w assume "w \<in> set vocab"
    with cons obtain cw where cw: "word_topic_counts s w = Some cw"
      "\<forall>k. cw k = sum_list (map (wcount ?mc w k) corp)"
      unfolding consistent_def by fast
    then show "\<exists>cw. word_topic_counts s w = Some cw
              \<and> (\<Sum>k = 1..K. cw k) = int (count_list (concat (map snd corp)) w)"
      using w_tot [of w] by simp
  qed
  have tot: "total_topic_counts s k = sum_list (map (dcount ?mc k) corp)" for k
    using cons unfolding consistent_def by fast
  show "\<forall>k. (\<Sum>w\<leftarrow>vocab. case word_topic_counts s w of None \<Rightarrow> 0 | Some cw \<Rightarrow> cw k)
              = total_topic_counts s k"
  proof
    fix k
    have "\<And>w. w \<in> set vocab \<Longrightarrow>
        (case word_topic_counts s w of None \<Rightarrow> 0 | Some cw \<Rightarrow> cw k)
          = sum_list (map (wcount ?mc w k) corp)"
    proof -
      fix w assume "w \<in> set vocab"
      with cons obtain cw where "word_topic_counts s w = Some cw"
        "\<forall>k. cw k = sum_list (map (wcount ?mc w k) corp)"
        unfolding consistent_def by fast
      then show "(case word_topic_counts s w of None \<Rightarrow> 0 | Some cw \<Rightarrow> cw k)
          = sum_list (map (wcount ?mc w k) corp)" by simp
    qed
    then have "(\<Sum>w\<leftarrow>vocab. case word_topic_counts s w of None \<Rightarrow> 0 | Some cw \<Rightarrow> cw k)
        = (\<Sum>w\<leftarrow>vocab. sum_list (map (wcount ?mc w k) corp))"
      by (rule sum_list_map_cong)
    also have "\<dots> = (\<Sum>w \<in> set vocab. sum_list (map (wcount ?mc w k) corp))"
      using dv by (simp add: sum_list_distinct_conv_sum_set)
    also have "\<dots> = sum_list (map (\<lambda>x. \<Sum>w \<in> set vocab. wcount ?mc w k x) corp)"
      by (rule sum_over_sum_list)
    also have "\<dots> = sum_list (map (dcount ?mc k) corp)"
      by (rule sum_list_map_cong) (rule v_sum)
    finally show "(\<Sum>w\<leftarrow>vocab. case word_topic_counts s w of None \<Rightarrow> 0 | Some cw \<Rightarrow> cw k)
        = total_topic_counts s k"
      by (simp add: tot)
  qed
  have "(\<Sum>k = 1..K. total_topic_counts s k) = (\<Sum>k = 1..K. sum_list (map (dcount ?mc k) corp))"
    by (simp add: tot)
  also have "\<dots> = sum_list (map (\<lambda>x. \<Sum>k = 1..K. dcount ?mc k x) corp)"
    by (rule sum_over_sum_list)
  also have "\<dots> = sum_list (map (\<lambda>x. int (length (snd x))) corp)"
    by (rule sum_list_map_cong) (rule d_sum)
  also have "\<dots> = int (length (concat (map snd corp)))"
    by (simp add: length_concat_int comp_def)
  finally show "(\<Sum>k = 1..K. total_topic_counts s k) = int (length (concat (map snd corp)))" .
qed

lemma init_vocabulary:
  assumes "init alloc corp K alpha0 beta0 = Inr m"
  shows "set (concat (map snd (iden_to_tokens m))) \<subseteq> set (vocabulary m)"
    and "distinct (vocabulary m)" and "0 < self_W m"
proof -
  note f = init_fields [OF assms]
  show "set (concat (map snd (iden_to_tokens m))) \<subseteq> set (vocabulary m)" by (simp add: f(3,5))
  show "distinct (vocabulary m)" by (simp add: f(5))
  have "remdups (concat (map snd corp)) \<noteq> []" using f(1) by (metis remdups_eq_nil_iff)
  then show "0 < self_W m" by (simp add: f(5,6))
qed

lemma scenario_distinct: "distinct (map fst scenario_corpus)"
  by (simp add: scenario_corpus_def)

lemma scenario_schedule:
  "schedule scenario_model 1
     = [(''d1'', 0, ''a''), (''d1'', 1, ''b''), (''d1'', 2, ''a''), (''d2'', 0, ''b''),
        (''d2'', 1, ''b'')]"
  by (simp add: schedule_def occurrences_def scenario_model_def scenario_corpus_def
      enumerate_eq_zip upt_conv_Cons)

lemma scenario_move:
  "resample_token scenario_model 1 1 ''d1'' (0, ''a'') (scenario_state, \<lambda>_. 9 / 10)
     = Inr (scenario_moved, gen_drop 1 (\<lambda>_. 9 / 10))"
  by (simp add: resample_token_def np_zeros1_def scenario_model_def scenario_state_def
      scenario_moved_def set_density_def choices_def accumulate_def bisect.simps Let_def
      upto_1_2 numeral_2_eq_2 counter_add_def fun_eq_iff)

text \<open>
  C3. Let the instance come from the constructor on a corpus with distinct document
  ids, let \<open>_initialize_topics\<close> succeed, and let any number \<open>n\<close> of the resampling steps
  of \<open>fit\<close> have been done, in the order of the sweeps (\<open>n = 0\<close>: immediately after
  the initializer; the steps are counted one by one, not sweep by sweep). Then every
  document's counts sum over the topics 1 to \<open>K\<close> to its number of tokens, every
  vocabulary word's counts sum to its number of occurrences in the corpus, for every
  topic the word counts summed over the vocabulary equal the total count of the topic,
  and the total counts sum to the number of tokens of the corpus.
\<close>

theorem count_invariants:
  assumes "init alloc corp K alpha0 beta0 = Inr m" and "distinct (map fst corp)"
    and "initialize_topics m np_gen = Inr (s0, np_gen')"
    and "for_each (resample_occ m alpha beta) (take n (schedule m niter)) (s0, py_gen)
           = Inr (s, py_gen')"
  shows "(\<forall>(doc, words) \<in> set corp.
            \<exists>cd. document_topic_counts s doc = Some cd \<and> (\<Sum>k = 1..K. cd k) = int (length words))
       \<and> (\<forall>w \<in> set (vocabulary m).
            \<exists>cw. word_topic_counts s w = Some cw
               \<and> (\<Sum>k = 1..K. cw k) = int (count_list (concat (map snd corp)) w))
       \<and> (\<forall>k. (\<Sum>w\<leftarrow>vocabulary m. case word_topic_counts s w of None \<Rightarrow> 0 | Some cw \<Rightarrow> cw k)
               = total_topic_counts s k)
       \<and> (\<Sum>k = 1..K. total_topic_counts s k) = int (length (concat (map snd corp)))"
proof -
  note f = init_fields [OF assms(1)]
  note v = init_vocabulary [OF assms(1)]
  have d: "distinct (map fst (iden_to_tokens m))" using assms(2) f(3) by simp
  have c0: "consistent (iden_to_tokens m) (vocabulary m) (self_K m) s0"
    by (rule initialize_topics_consistent [OF assms(3) d v(1)])
  have "consistent (iden_to_tokens m) (vocabulary m) (self_K m) s"
  proof (rule run_consistent [OF assms(4) c0 d])
    fix doc i word
    assume "(doc, i, word) \<in> set (take n (schedule m niter))"
    then have "(doc, i, word) \<in> set (schedule m niter)" by (rule in_set_takeD)
    then show "\<exists>words. (doc, words) \<in> set (iden_to_tokens m) \<and> i < length words
        \<and> word = words ! i"
      by (rule schedule_valid)
  qed
  then have c: "consistent corp (vocabulary m) K s" by (simp add: f(3,4))
  have voc: "set (concat (map snd corp)) \<subseteq> set (vocabulary m)" using v(1) by (simp add: f(3))
  from consistent_sums [OF c v(2) voc] show ?thesis by blast
qed

theorem count_invariants_witness:
  "(\<exists>cd. document_topic_counts scenario_moved ''d1'' = Some cd \<and> (\<Sum>k = 1..2. cd k) = 3)
   \<and> (\<exists>cw. word_topic_counts scenario_moved ''b'' = Some cw \<and> (\<Sum>k = 1..2. cw k) = 3)
   \<and> (\<Sum>w\<leftarrow>vocabulary scenario_model.
          case word_topic_counts scenario_moved w of None \<Rightarrow> 0 | Some cw \<Rightarrow> cw 2)
       = total_topic_counts scenario_moved 2
   \<and> (\<Sum>k = 1..2. total_topic_counts scenario_moved k) = 5"
proof -
  have run: "for_each (resample_occ scenario_model 1 1) (take 1 (schedule scenario_model 1))
        (scenario_state, \<lambda>_. 9 / 10) = Inr (scenario_moved, gen_drop 1 (\<lambda>_. 9 / 10))"
    by (simp add: scenario_schedule resample_occ_def scenario_move)
  note t = count_invariants [OF scenario_init scenario_distinct scenario_initialize run]
  from t have "\<exists>cd. document_topic_counts scenario_moved ''d1'' = Some cd
      \<and> (\<Sum>k = 1..2. cd k) = int (length [''a'', ''b'', ''a''])"
    by (auto simp: scenario_corpus_def)
  moreover from t have "\<exists>cw. word_topic_counts scenario_moved ''b'' = Some cw
      \<and> (\<Sum>k = 1..2. cw k) = int (count_list (concat (map snd scenario_corpus)) ''b'')"
    by (auto simp: scenario_model_def)
  moreover from t have "(\<Sum>w\<leftarrow>vocabulary scenario_model.
          case word_topic_counts scenario_moved w of None \<Rightarrow> 0 | Some cw \<Rightarrow> cw 2)
       = total_topic_counts scenario_moved 2"
    by blast
  moreover from t have "(\<Sum>k = 1..2. total_topic_counts scenario_moved k)
       = int (length (concat (map snd scenario_corpus)))"
    by blast
  ultimately show ?thesis by (simp add: scenario_corpus_def)
qed

section \<open>The conditional densities of a step\<close>



section \<open>Every resampling step succeeds\<close>


lemma resample_token_succeeds:
  assumes cons: "consistent corp vocab K s" and dist: "distinct (map fst corp)"
    and mem: "(doc, words) \<in> set corp" and i: "i < length words"
    and K: "self_K m = K" and K1: "1 \<le> K"
    and alpha: "0 < alpha" and beta: "0 < beta"
    and wv: "words ! i \<in> set vocab" and W: "0 < self_W m"
  shows "\<exists>s' g'. resample_token m alpha beta doc (i, words ! i) (s, g) = Inr (s', g')"
proof -
  let ?mc = "document_word_topics_MC s"
  from consistent_lookup [OF cons mem] obtain chs cd where
    chs: "map_of ?mc doc = Some chs" "length chs = length words"
      "\<And>ch. ch \<in> set chs \<Longrightarrow> ch \<noteq> [] \<and> 1 \<le> last ch \<and> last ch \<le> K"
    and cd: "document_topic_counts s doc = Some cd" "\<And>k. cd k = dcount ?mc k (doc, words)"
    and zs: "cur_topics ?mc doc = map last chs"
    by blast
  from cons wv obtain cw where cw: "word_topic_counts s (words ! i) = Some cw"
    "\<forall>k. cw k = sum_list (map (wcount ?mc (words ! i) k) corp)"
    unfolding consistent_def by fast
  have tot: "total_topic_counts s k = sum_list (map (dcount ?mc k) corp)" for k
    using cons unfolding consistent_def by fast
  define c0 where "c0 = last (chs ! i)"
  define zs where "zs = map last chs"
  have zi: "i < length zs" "zs ! i = c0" using i chs(2) by (simp_all add: zs_def c0_def)
  have ne: "chs ! i \<noteq> []" using chs(2,3) i by simp
  have d_nonneg: "0 \<le> dcount ?mc k x" for k x by (cases x) (simp add: dcount_def)
  have w_nonneg: "0 \<le> wcount ?mc w k x" for w k x by (cases x) (simp add: wcount_def)
  have d_doc: "(if k = c0 then 1 else 0) \<le> dcount ?mc k (doc, words)" for k
    using count_nth_pos [OF zi(1)] zi(2) zs by (simp add: dcount_def zs_def)
  have zip_i: "i < length (zip words zs)" "zip words zs ! i = (words ! i, c0)"
    using i zi by simp_all
  have w_doc: "(if k = c0 then 1 else 0) \<le> wcount ?mc (words ! i) k (doc, words)" for k
    using count_nth_pos [OF zip_i(1)] zip_i(2) zs by (simp add: wcount_def zs_def)
  have cd_ge: "(if k = c0 then 1 else 0) \<le> cd k" for k using d_doc cd(2) by simp
  have cw_ge: "(if k = c0 then 1 else 0) \<le> cw k" for k
  proof -
    have "wcount ?mc (words ! i) k (doc, words) \<le> sum_list (map (wcount ?mc (words ! i) k) corp)"
      by (rule member_le_sum_list_int [OF w_nonneg mem])
    with w_doc [of k] cw(2) show ?thesis by simp
  qed
  have tot_ge: "(if k = c0 then 1 else 0) \<le> total_topic_counts s k" for k
  proof -
    have "dcount ?mc k (doc, words) \<le> sum_list (map (dcount ?mc k) corp)"
      by (rule member_le_sum_list_int [OF d_nonneg mem])
    with d_doc [of k] tot [of k] show ?thesis by simp
  qed
  have den: "0 < rat_of_int (total_topic_counts s k - (if k = c0 then 1 else 0))
                 + of_nat (self_W m) * beta" for k
  proof -
    have "0 \<le> rat_of_int (total_topic_counts s k - (if k = c0 then 1 else 0))"
      using tot_ge [of k] by simp
    moreover have "0 < rat_of_nat (self_W m) * beta" using W beta by simp
    ultimately show ?thesis by (rule add_nonneg_pos)
  qed
  have dens: "for_each (set_density m alpha beta s doc (words ! i) c0) [1..self_K m]
        (replicate (nat (self_K m)) 0)
      = Inr (map (density_of m alpha beta cd cw (total_topic_counts s) c0) [1..self_K m])"
  proof (rule compute_densities [OF cd(1) cw(1)])
    fix k
    show "rat_of_int (total_topic_counts s k - (if k = c0 then 1 else 0))
        + rat_of_nat (self_W m) * beta \<noteq> 0"
      using den [of k] by simp
  qed
  have pos: "0 < density_of m alpha beta cd cw (total_topic_counts s) c0 k" for k
  proof -
    have "0 \<le> rat_of_int (cd k - (if k = c0 then 1 else 0))" using cd_ge [of k] by simp
    then have a: "0 < rat_of_int (cd k - (if k = c0 then 1 else 0)) + alpha"
      using alpha by (rule add_nonneg_pos)
    have "0 \<le> rat_of_int (cw k - (if k = c0 then 1 else 0))" using cw_ge [of k] by simp
    then have b: "0 < rat_of_int (cw k - (if k = c0 then 1 else 0)) + beta"
      using beta by (rule add_nonneg_pos)
    show ?thesis unfolding density_of_def
      by (intro mult_pos_pos divide_pos_pos a b den)
  qed
  have "\<exists>new. choices [1..self_K m]
          (map (density_of m alpha beta cd cw (total_topic_counts s) c0) [1..self_K m]) (g 0)
        = Inr new"
  proof (rule choices_succeeds)
    show "map (density_of m alpha beta cd cw (total_topic_counts s) c0) [1..self_K m] \<noteq> []"
      using K K1 by simp
  qed (auto simp: pos)
  then obtain new where draw: "choices [1..self_K m]
          (map (density_of m alpha beta cd cw (total_topic_counts s) c0) [1..self_K m]) (g 0)
        = Inr new" by blast
  have zeros: "np_zeros1 (self_K m) = Inr (replicate (nat (self_K m)) 0)"
    using K K1 by (simp add: np_zeros1_def)
  have ilen: "i < length chs" using i chs(2) by simp
  show ?thesis
    unfolding resample_token_def
    using zeros chs(1) ilen ne dens draw cd(1) cw(1)
    by (simp add: Let_def c0_def [symmetric])
qed

lemma run_succeeds:
  assumes cons: "consistent (iden_to_tokens m) vocab (self_K m) s"
    and dist: "distinct (map fst (iden_to_tokens m))"
    and valid: "\<And>doc i word. (doc, i, word) \<in> set occs \<Longrightarrow>
        \<exists>words. (doc, words) \<in> set (iden_to_tokens m) \<and> i < length words \<and> word = words ! i"
    and voc: "set (concat (map snd (iden_to_tokens m))) \<subseteq> set vocab"
    and K1: "1 \<le> self_K m" and alpha: "0 < alpha" and beta: "0 < beta" and W: "0 < self_W m"
  shows "\<exists>st. for_each (resample_occ m alpha beta) occs (s, g) = Inr st
           \<and> consistent (iden_to_tokens m) vocab (self_K m) (fst st)"
proof -
  have "\<exists>st. for_each (resample_occ m alpha beta) occs (s, g) = Inr st
      \<and> (\<lambda>pre st. consistent (iden_to_tokens m) vocab (self_K m) (fst st)) occs st"
  proof (rule for_each_prefix
      [where I = "\<lambda>pre st. consistent (iden_to_tokens m) vocab (self_K m) (fst st)"])
    show "consistent (iden_to_tokens m) vocab (self_K m) (fst (s, g))" using cons by simp
  next
    fix pre x post and t :: "sampler_state \<times> rat gen"
    assume split: "occs = pre @ x # post"
      and inv: "consistent (iden_to_tokens m) vocab (self_K m) (fst t)"
    obtain doc i word where xd: "x = (doc, i, word)" by (cases x)
    obtain s1 g1 where t: "t = (s1, g1)" by (cases t)
    have "(doc, i, word) \<in> set occs" unfolding split xd by simp
    from valid [OF this] obtain words where w: "(doc, words) \<in> set (iden_to_tokens m)"
      "i < length words" "word = words ! i" by blast
    have wv: "words ! i \<in> set vocab" using voc w(1,2) by force
    have c1: "consistent (iden_to_tokens m) vocab (self_K m) s1" using inv t by simp
    from resample_token_succeeds [OF c1 dist w(1,2) refl K1 alpha beta wv W, where g = g1]
    obtain s2 g2 where step: "resample_token m alpha beta doc (i, words ! i) (s1, g1) = Inr (s2, g2)"
      by blast
    from resample_token_consistent [OF c1 dist w(1,2) refl step]
    have "consistent (iden_to_tokens m) vocab (self_K m) s2" .
    then show "\<exists>t'. resample_occ m alpha beta x t = Inr t'
        \<and> consistent (iden_to_tokens m) vocab (self_K m) (fst t')"
      using step by (simp add: xd t resample_occ_def w(3))
  qed
  then show ?thesis by simp
qed

lemma consistent_chains:
  assumes cons: "consistent corp vocab K s" and dist: "distinct (map fst corp)"
  shows "distinct (map fst (document_word_topics_MC s))"
    and "\<forall>(doc, chs) \<in> set (document_word_topics_MC s). [] \<notin> set chs"
proof -
  have keys: "map fst (document_word_topics_MC s) = map fst corp"
    using cons unfolding consistent_def by fast
  show d: "distinct (map fst (document_word_topics_MC s))" using keys dist by simp
  show "\<forall>(doc, chs) \<in> set (document_word_topics_MC s). [] \<notin> set chs"
  proof (intro ballI)
    fix x assume x: "x \<in> set (document_word_topics_MC s)"
    obtain doc chs where xd: "x = (doc, chs)" by (cases x)
    have "doc \<in> set (map fst corp)" using x xd keys [symmetric] by force
    then obtain words where w: "(doc, words) \<in> set corp" by auto
    from consistent_lookup [OF cons w] obtain chs' where
      c: "map_of (document_word_topics_MC s) doc = Some chs'"
      "\<And>ch. ch \<in> set chs' \<Longrightarrow> ch \<noteq> [] \<and> 1 \<le> last ch \<and> last ch \<le> K"
      by metis
    have "map_of (document_word_topics_MC s) doc = Some chs" using d x xd by simp
    then have "chs' = chs" using c(1) by simp
    then show "case x of (doc, chs) \<Rightarrow> [] \<notin> set chs" using c(2) xd by auto
  qed
qed

section \<open>The outcome of a run\<close>

lemma compute_MC_topic_approx_succeeds:
  assumes "distinct (map fst mc)" and "\<forall>(doc, chs) \<in> set mc. [] \<notin> set chs"
  shows "\<exists>out. compute_MC_topic_approx mc = Inr out"
proof -
  define lab where "lab = (\<lambda>ch. case mode ch of Inr t \<Rightarrow> t | Inl e \<Rightarrow> 0)"
  have mode_lab: "mode ch = Inr (lab ch)" if "ch \<noteq> []" for ch
    using that by (simp add: lab_def mode_def)
  have inner: "map_err
         (\<lambda>(i, word). case map_of mc doc of
              None \<Rightarrow> Inl KeyError
            | Some chs' \<Rightarrow> if i < length chs' then mode (chs' ! i) else Inl IndexError)
         (enumerate 0 chs) = Inr (map (\<lambda>(i, word). lab word) (enumerate 0 chs))"
    if "(doc, chs) \<in> set mc" for doc chs
  proof (rule map_err_Inr)
    fix x assume x: "x \<in> set (enumerate 0 chs)"
    obtain i word where xi: "x = (i, word)" by (cases x)
    from x xi have i: "i < length chs" "word = chs ! i" by (auto simp: in_set_enumerate_eq)
    have look: "map_of mc doc = Some chs" using assms(1) that by simp
    have "chs ! i \<noteq> []" using assms(2) that i(1) by (metis case_prodD nth_mem)
    then show "(case x of (i, word) \<Rightarrow> case map_of mc doc of
              None \<Rightarrow> Inl KeyError
            | Some chs' \<Rightarrow> if i < length chs' then mode (chs' ! i) else Inl IndexError)
          = Inr (case x of (i, word) \<Rightarrow> lab word)"
      using xi i look mode_lab by simp
  qed
  have "compute_MC_topic_approx mc
      = Inr (map (\<lambda>(doc, chs). (doc, map (\<lambda>(i, word). lab word) (enumerate 0 chs))) mc)"
    unfolding compute_MC_topic_approx_def
    by (rule map_err_Inr) (auto simp: inner)
  then show ?thesis by blast
qed

lemma fit_raises:
  assumes init: "init alloc corp K alpha0 beta0 = Inr m" and dist: "distinct (map fst corp)"
    and K1: "1 \<le> K" and alpha: "0 < alpha" and beta: "0 < beta"
  shows "fit m alpha beta niter np_gen py_gen = (Inl (NameError ''_compute_phi_estimates''), m)"
proof -
  note f = init_fields [OF init]
  note v = init_vocabulary [OF init]
  have d: "distinct (map fst (iden_to_tokens m))" using dist f(3) by simp
  have k: "1 \<le> self_K m" using K1 f(4) by simp
  from initialize_topics_succeeds [OF k d v(1)] obtain s0 g0 where
    i0: "initialize_topics m np_gen = Inr (s0, g0)" by blast
  have c0: "consistent (iden_to_tokens m) (vocabulary m) (self_K m) s0"
    by (rule initialize_topics_consistent [OF i0 d v(1)])
  from run_succeeds [OF c0 d _ v(1) k alpha beta v(3), of "schedule m niter" py_gen]
    schedule_valid
  obtain st where st: "for_each (resample_occ m alpha beta) (schedule m niter) (s0, py_gen) = Inr st"
    "consistent (iden_to_tokens m) (vocabulary m) (self_K m) (fst st)"
    by blast
  obtain s g where sg: "st = (s, g)" by (cases st)
  have g: "gibbs m alpha beta niter (s0, py_gen) = Inr (s, g)"
    using st(1) sg by (simp add: gibbs_schedule)
  from consistent_chains [OF st(2) d] sg
  obtain out where out: "compute_MC_topic_approx (document_word_topics_MC s) = Inr out"
    using compute_MC_topic_approx_succeeds by fastforce
  show ?thesis by (simp add: fit_def i0 g out)
qed

text \<open>
  C1. The claim has \<open>fit\<close> return the topic labels and the two matrices. On the scenario
  of the specification, with \<open>niter = 0\<close>, it raises \<open>NameError\<close> instead.
\<close>

theorem fit_scenario_raises:
  "fst (fit scenario_model (1 / 10) (1 / 10) 0 (\<lambda>i. i) (\<lambda>i. 0))
     = Inl (NameError ''_compute_phi_estimates'')"
  using fit_raises [OF scenario_init scenario_distinct, of "1 / 10" "1 / 10" 0 "\<lambda>i. i" "\<lambda>i. 0"]
  by simp

section \<open>Sampling failure\<close>



section \<open>Rounding\<close>














section \<open>A run whose densities underflow\<close>









section \<open>The outcome of a run in double precision\<close>







end
